theory Spec2Isabelle
  imports Main "HOL-Library.Sublist"
begin

section \<open>Text as the programs see it\<close>

text \<open>
  The two fetch scripts (\<^verbatim>\<open>fetch_secure_session_improved.py\<close> and
  \<^verbatim>\<open>fetch_entire_history.py\<close>) work on Python \<^verbatim>\<open>str\<close> values. A text is modelled
  as a \<^typ>\<open>string\<close> whose characters are the code points 0 to 255, one \<^typ>\<open>char\<close> per
  code point, so that \<^const>\<open>length\<close> is Python's \<^verbatim>\<open>len\<close>. On this alphabet the
  functions below are Python's \<^verbatim>\<open>str\<close> methods exactly; code points above 255 are
  outside the model.
\<close>

text \<open>\<^verbatim>\<open>s.startswith(p)\<close>.\<close>

fun startswith :: "string \<Rightarrow> string \<Rightarrow> bool" where
  "startswith s [] = True"
| "startswith [] (p # ps) = False"
| "startswith (c # cs) (p # ps) = (c = p \<and> startswith cs ps)"

text \<open>\<^verbatim>\<open>k in s\<close> for two texts: \<open>k\<close> occurs in \<open>s\<close> as a contiguous substring.\<close>

fun contains :: "string \<Rightarrow> string \<Rightarrow> bool" where
  "contains [] k = (k = [])"
| "contains (c # cs) k = (startswith (c # cs) k \<or> contains cs k)"

text \<open>
  \<^verbatim>\<open>str.isspace\<close> on one character: the tab to carriage return block, the four
  separators \<^verbatim>\<open>\x1c\<close> to \<^verbatim>\<open>\x1f\<close>, the space, \<^verbatim>\<open>\x85\<close> and \<^verbatim>\<open>\xa0\<close>.
\<close>

definition isspace :: "char \<Rightarrow> bool" where
  "isspace c = (c \<in> set [CHR 0x09, CHR 0x0A, CHR 0x0B, CHR 0x0C, CHR 0x0D,
                          CHR 0x1C, CHR 0x1D, CHR 0x1E, CHR 0x1F, CHR 0x20,
                          CHR 0x85, CHR 0xA0])"

text \<open>\<^verbatim>\<open>s.strip()\<close>: whitespace removed at both ends.\<close>

definition strip :: "string \<Rightarrow> string" where
  "strip s = rev (dropWhile isspace (rev (dropWhile isspace s)))"

text \<open>
  \<^verbatim>\<open>s.lower()\<close>. Below code point 256 the cased letters are A to Z and the Latin-1
  capitals \<^verbatim>\<open>\xc0\<close> to \<^verbatim>\<open>\xde\<close> without the multiplication sign \<^verbatim>\<open>\xd7\<close>; each
  goes to the character 32 places further.
\<close>

definition upper_letters :: string where
  "upper_letters = ''ABCDEFGHIJKLMNOPQRSTUVWXYZ'' @
     [CHR 0xC0, CHR 0xC1, CHR 0xC2, CHR 0xC3, CHR 0xC4, CHR 0xC5, CHR 0xC6, CHR 0xC7,
      CHR 0xC8, CHR 0xC9, CHR 0xCA, CHR 0xCB, CHR 0xCC, CHR 0xCD, CHR 0xCE, CHR 0xCF,
      CHR 0xD0, CHR 0xD1, CHR 0xD2, CHR 0xD3, CHR 0xD4, CHR 0xD5, CHR 0xD6,
      CHR 0xD8, CHR 0xD9, CHR 0xDA, CHR 0xDB, CHR 0xDC, CHR 0xDD, CHR 0xDE]"

definition lower_letters :: string where
  "lower_letters = ''abcdefghijklmnopqrstuvwxyz'' @
     [CHR 0xE0, CHR 0xE1, CHR 0xE2, CHR 0xE3, CHR 0xE4, CHR 0xE5, CHR 0xE6, CHR 0xE7,
      CHR 0xE8, CHR 0xE9, CHR 0xEA, CHR 0xEB, CHR 0xEC, CHR 0xED, CHR 0xEE, CHR 0xEF,
      CHR 0xF0, CHR 0xF1, CHR 0xF2, CHR 0xF3, CHR 0xF4, CHR 0xF5, CHR 0xF6,
      CHR 0xF8, CHR 0xF9, CHR 0xFA, CHR 0xFB, CHR 0xFC, CHR 0xFD, CHR 0xFE]"

definition lower_char :: "char \<Rightarrow> char" where
  "lower_char c = (case map_of (zip upper_letters lower_letters) c of
                     Some d \<Rightarrow> d | None \<Rightarrow> c)"

definition lower :: "string \<Rightarrow> string" where
  "lower s = map lower_char s"

section \<open>The relevance classifier\<close>

text \<open>
  Both scripts score a text against two keyword lists with the expression
  \<^verbatim>\<open>sum(1 for indicator in INDICATORS if indicator in content_lower)\<close>: one point for
  every entry of the list that occurs in the lower-cased text.
\<close>

definition indicator_score :: "string list \<Rightarrow> string \<Rightarrow> nat" where
  "indicator_score indicators content_lower =
     length (filter (\<lambda>indicator. contains content_lower indicator) indicators)"

subsection \<open>\<^verbatim>\<open>DataProcessor\<close> of \<^verbatim>\<open>fetch_secure_session_improved.py\<close>\<close>

definition BREACH_INDICATORS :: "string list" where
  "BREACH_INDICATORS =
     [''leak'', ''breach'', ''hack'', ''compromise'', ''exposed'', ''stolen'', ''database'',
      ''credentials'', ''password'', ''email'', ''personal data'', ''user data'',
      ''customer data'', ''financial data'', ''credit card'', ''ssn'', ''social security'']"

definition SPAM_INDICATORS :: "string list" where
  "SPAM_INDICATORS =
     [''buy'', ''sell'', ''offer'', ''discount'', ''promotion'', ''service'', ''tool'',
      ''software'', ''review'', ''rating'', ''backlink'', ''seo'', ''marketing'',
      ''advertisement'', ''sponsored'', ''deal'', ''sale'', ''free trial'']"

definition spam_score :: "string \<Rightarrow> nat" where
  "spam_score content = indicator_score SPAM_INDICATORS (lower content)"

definition breach_score :: "string \<Rightarrow> nat" where
  "breach_score content = indicator_score BREACH_INDICATORS (lower content)"

text \<open>
  \<^verbatim>\<open>DataProcessor.is_legitimate_breach\<close>: the guard \<^verbatim>\<open>if not content: return False\<close>,
  then the two scores and the comparison.
\<close>

definition is_legitimate_breach :: "string \<Rightarrow> bool" where
  "is_legitimate_breach content =
     (if content = [] then False
      else (let content_lower = lower content;
                spam = indicator_score SPAM_INDICATORS content_lower;
                breach = indicator_score BREACH_INDICATORS content_lower
            in breach > spam \<and> breach > 0))"

subsection \<open>The module-level lists of \<^verbatim>\<open>fetch_entire_history.py\<close>\<close>

text \<open>The entry \<^verbatim>\<open>'database'\<close> stands twice in this list, as in the source.\<close>

definition BREACH_INDICATORS_full :: "string list" where
  "BREACH_INDICATORS_full =
     [''leak'', ''breach'', ''hack'', ''compromise'', ''exposed'', ''stolen'', ''database'',
      ''credentials'', ''password'', ''email'', ''personal data'', ''user data'',
      ''customer data'', ''financial data'', ''credit card'', ''ssn'', ''social security'',
      ''dump'', ''database'', ''records'', ''accounts'', ''users'', ''customers'',
      ''financial'', ''banking'', ''payment'', ''transaction'', ''identity'', ''personal'',
      ''address'', ''phone'', ''dob'', ''date of birth'', ''national id'', ''passport'']"

definition SPAM_INDICATORS_full :: "string list" where
  "SPAM_INDICATORS_full =
     [''buy'', ''sell'', ''offer'', ''discount'', ''promotion'', ''service'', ''tool'',
      ''software'', ''review'', ''rating'', ''backlink'', ''seo'', ''marketing'',
      ''advertisement'', ''sponsored'', ''deal'', ''sale'', ''free trial'', ''subscribe'',
      ''join'', ''telegram.me'', ''t.me'', ''channel'', ''group'', ''bot'', ''premium'']"

definition spam_score_full :: "string \<Rightarrow> nat" where
  "spam_score_full content = indicator_score SPAM_INDICATORS_full (lower content)"

definition breach_score_full :: "string \<Rightarrow> nat" where
  "breach_score_full content = indicator_score BREACH_INDICATORS_full (lower content)"

text \<open>\<^verbatim>\<open>FullHistoryFetcher.is_relevant_breach\<close>, on a text.\<close>

definition is_relevant_breach :: "string \<Rightarrow> bool" where
  "is_relevant_breach content =
     (if content = [] then False
      else (let content_lower = lower content;
                spam = indicator_score SPAM_INDICATORS_full content_lower;
                breach = indicator_score BREACH_INDICATORS_full content_lower
            in breach > spam \<and> breach > 0))"

text \<open>
  A keyword that is not empty and neither begins nor ends with whitespace. All keywords of
  \<^verbatim>\<open>DataProcessor\<close> are of this kind, which is why stripping a text does not change its
  scores.
\<close>

definition solid :: "string \<Rightarrow> bool" where
  "solid k = (k \<noteq> [] \<and> \<not> isspace (hd k) \<and> \<not> isspace (last k))"

section \<open>Records and the store\<close>

text \<open>
  A message record is a Python \<^verbatim>\<open>dict\<close> with text keys whose values are whatever
  \<^verbatim>\<open>json.loads\<close> produced. JSON values are the datatype below; a number keeps the
  numeral it was written with (no function here computes with numbers). A dict is an
  association list in insertion order, read with \<^const>\<open>map_of\<close>.
\<close>

datatype json =
    JNull
  | JBool bool
  | JNum string
  | JStr string
  | JArr "json list"
  | JObj "(string \<times> json) list"

type_synonym message = "(string \<times> json) list"

text \<open>\<^verbatim>\<open>d.get(key, default)\<close>.\<close>

definition dict_get :: "message \<Rightarrow> string \<Rightarrow> json \<Rightarrow> json" where
  "dict_get d key dflt = (case map_of d key of Some v \<Rightarrow> v | None \<Rightarrow> dflt)"

text \<open>\<^verbatim>\<open>d[key] = v\<close>: an existing key keeps its place, a new key goes to the end.\<close>

fun dict_set :: "message \<Rightarrow> string \<Rightarrow> json \<Rightarrow> message" where
  "dict_set [] key v = [(key, v)]"
| "dict_set ((k, w) # d) key v = (if k = key then (k, v) # d else (k, w) # dict_set d key v)"

text \<open>
  The exceptions that the modelled code can raise: calling \<^verbatim>\<open>.strip()\<close> on a value that is
  not a text raises \<^verbatim>\<open>AttributeError\<close>.
\<close>

datatype py_error = AttributeError

section \<open>Deduplication: \<^verbatim>\<open>DataProcessor.deduplicate_messages\<close>\<close>

text \<open>
  The digest comes from the standard library: \<open>sha256_hexdigest content\<close> stands for
  \<^verbatim>\<open>hashlib.sha256(content.encode()).hexdigest()\<close> and is a parameter of the model, so
  every statement below holds for any digest function. The key of a text is the first 16
  characters of its digest.
\<close>

definition content_hash :: "(string \<Rightarrow> string) \<Rightarrow> string \<Rightarrow> string" where
  "content_hash sha256_hexdigest content = take 16 (sha256_hexdigest content)"

text \<open>
  The function runs the same loop body twice, over \<^verbatim>\<open>existing\<close> and then over
  \<^verbatim>\<open>new\<close>, on the shared variables \<^verbatim>\<open>seen_hashes\<close> and \<^verbatim>\<open>unique_messages\<close>.
  \<open>dedup_loop\<close> is that loop; the pair is the state of the two variables.
  \<^verbatim>\<open>msg.get('Content', '').strip()\<close> raises when the stored value is not a text.
\<close>

fun dedup_loop :: "(string \<Rightarrow> string) \<Rightarrow> message list \<Rightarrow> string set \<times> message list
                     \<Rightarrow> py_error + (string set \<times> message list)" where
  "dedup_loop H [] (seen_hashes, unique_messages) = Inr (seen_hashes, unique_messages)"
| "dedup_loop H (msg # rest) (seen_hashes, unique_messages) =
     (case dict_get msg ''Content'' (JStr []) of
        JStr c \<Rightarrow>
          (let content = strip c in
           if content \<noteq> [] \<and> is_legitimate_breach content then
             (let h = content_hash H content in
              if h \<notin> seen_hashes
              then dedup_loop H rest (insert h seen_hashes, unique_messages @ [msg])
              else dedup_loop H rest (seen_hashes, unique_messages))
           else dedup_loop H rest (seen_hashes, unique_messages))
      | _ \<Rightarrow> Inl AttributeError)"

definition deduplicate_messages :: "(string \<Rightarrow> string) \<Rightarrow> message list \<Rightarrow> message list
                                      \<Rightarrow> py_error + message list" where
  "deduplicate_messages H existing new =
     (case dedup_loop H existing ({}, []) of
        Inl e \<Rightarrow> Inl e
      | Inr st \<Rightarrow>
          (case dedup_loop H new st of
             Inl e \<Rightarrow> Inl e
           | Inr (seen_hashes, unique_messages) \<Rightarrow> Inr unique_messages))"

text \<open>
  Names for what the loop body computes from one record: whether its \<^verbatim>\<open>Content\<close> is a
  text (or absent, when the default \<^verbatim>\<open>''\<close> is used), the stripped text, the test of the
  \<^verbatim>\<open>if\<close>, and the key.
\<close>

definition has_text_content :: "message \<Rightarrow> bool" where
  "has_text_content msg = (case dict_get msg ''Content'' (JStr []) of JStr c \<Rightarrow> True | _ \<Rightarrow> False)"

definition message_content :: "message \<Rightarrow> string" where
  "message_content msg = (case dict_get msg ''Content'' (JStr []) of JStr c \<Rightarrow> strip c | _ \<Rightarrow> [])"

definition passes_filter :: "message \<Rightarrow> bool" where
  "passes_filter msg = (message_content msg \<noteq> [] \<and> is_legitimate_breach (message_content msg))"

definition message_hash :: "(string \<Rightarrow> string) \<Rightarrow> message \<Rightarrow> string" where
  "message_hash H msg = content_hash H (message_content msg)"

text \<open>
  The records one run of the loop appends, as a function of the keys already seen. It is
  used to state what \<^const>\<open>dedup_loop\<close> returns.
\<close>

fun appended :: "(string \<Rightarrow> string) \<Rightarrow> string set \<Rightarrow> message list \<Rightarrow> message list" where
  "appended H seen [] = []"
| "appended H seen (msg # rest) =
     (if passes_filter msg \<and> message_hash H msg \<notin> seen
      then msg # appended H (insert (message_hash H msg) seen) rest
      else appended H seen rest)"

text \<open>Running one deduplication after another; an exception of the first run propagates.\<close>

definition then_merge :: "py_error + message list \<Rightarrow> (message list \<Rightarrow> py_error + message list)
                            \<Rightarrow> py_error + message list" where
  "then_merge r f = (case r of Inl e \<Rightarrow> Inl e | Inr store \<Rightarrow> f store)"

section \<open>Persisting: \<^verbatim>\<open>DataManager.save_data\<close>\<close>

text \<open>
  The two files of \<^verbatim>\<open>DataManager\<close>. A file holds the JSON text of a list of records;
  the model keeps the list that the text encodes, \<open>None\<close> for a file that does not exist.
  Failures of the file system are outside the model.
\<close>

record files =
  data_file :: "message list option"
  backup_file :: "message list option"

text \<open>\<^verbatim>\<open>_create_backup\<close>: copy \<^verbatim>\<open>data.json\<close> to the backup file when it exists.\<close>

definition create_backup :: "files \<Rightarrow> files" where
  "create_backup fs = (case data_file fs of None \<Rightarrow> fs | Some content \<Rightarrow> fs\<lparr>backup_file := Some content\<rparr>)"

text \<open>
  \<^verbatim>\<open>save_data\<close>: the backup when enabled, the cut to 10000 records, the write. The
  argument \<^verbatim>\<open>new_count\<close> is only logged.
\<close>

definition save_data :: "bool \<Rightarrow> message list \<Rightarrow> nat \<Rightarrow> files \<Rightarrow> files" where
  "save_data backup_enabled messages new_count fs =
     (let fs1 = (if backup_enabled then create_backup fs else fs);
          messages1 = (if length messages > 10000 then take 10000 messages else messages)
      in fs1\<lparr>data_file := Some messages1\<rparr>)"

section \<open>Text cleaning: \<^verbatim>\<open>clean_text\<close>\<close>

text \<open>
  \<^verbatim>\<open>s.replace(old, new)\<close>: the occurrences of \<open>old\<close> are found from the left and do not
  overlap. \<open>replace_from\<close> walks the text; its first argument counts the characters of
  a match that are still to be skipped.
\<close>

fun replace_from :: "nat \<Rightarrow> string \<Rightarrow> string \<Rightarrow> string \<Rightarrow> string" where
  "replace_from skip old new [] = []"
| "replace_from (Suc skip) old new (c # cs) = replace_from skip old new cs"
| "replace_from 0 old new (c # cs) =
     (if startswith (c # cs) old then new @ replace_from (length old - 1) old new cs
      else c # replace_from 0 old new cs)"

definition replace :: "string \<Rightarrow> string \<Rightarrow> string \<Rightarrow> string" where
  "replace s old new =
     (if old = [] then new @ concat (map (\<lambda>c. c # new) s) else replace_from 0 old new s)"

text \<open>
  The list \<^verbatim>\<open>watermarks\<close> of the source has four entries. Three of them contain the
  character U+1F539, which no text of the modelled alphabet contains, so replacing them
  changes nothing here; the entry that remains is the channel address.
\<close>

definition watermarks :: "string list" where
  "watermarks = [''t.me/breachdetector'']"

text \<open>The class \<^verbatim>\<open>[<>"']\<close> of the regular expression.\<close>

definition dangerous_chars :: "char list" where
  "dangerous_chars = [CHR ''<'', CHR ''>'', CHR 0x22, CHR 0x27]"

text \<open>
  \<^verbatim>\<open>clean_text\<close>, the same in both scripts. The argument is any Python value; a value
  that is not a text gives the empty text. The two escape replacements turn the two
  characters backslash, n into a space and backslash, double quote into a double quote.
\<close>

definition clean_text :: "json \<Rightarrow> string" where
  "clean_text text =
     (case text of
        JStr t \<Rightarrow>
          (let t1 = foldl (\<lambda>acc watermark. replace acc watermark []) t watermarks;
               t2 = replace (replace t1 [CHR 0x5C, CHR ''n''] '' '') [CHR 0x5C, CHR 0x22] [CHR 0x22];
               t3 = filter (\<lambda>c. c \<notin> set dangerous_chars) t2
           in strip t3)
      | _ \<Rightarrow> [])"

section \<open>\<^verbatim>\<open>json.loads\<close> and \<^verbatim>\<open>json.dumps\<close>\<close>

text \<open>
  The decoder of the standard library, as far as the alphabet allows: whitespace is space,
  tab, line feed and carriage return; a value is a string, an object, an array,
  \<^verbatim>\<open>null\<close>, \<^verbatim>\<open>true\<close>, \<^verbatim>\<open>false\<close>, a number, or one of \<^verbatim>\<open>NaN\<close>, \<^verbatim>\<open>Infinity\<close>,
  \<^verbatim>\<open>-Infinity\<close>; anything after the value but whitespace is an error.
  \<open>None\<close> stands for \<^verbatim>\<open>JSONDecodeError\<close>. An escape \<^verbatim>\<open>\uXXXX\<close> above code point 255
  leaves the alphabet and is refused here; the limit of the interpreter on the nesting
  depth is not modelled.
\<close>

definition json_ws :: "char \<Rightarrow> bool" where
  "json_ws c = (c \<in> set [CHR 0x20, CHR 0x09, CHR 0x0A, CHR 0x0D])"

definition skip_ws :: "string \<Rightarrow> string" where
  "skip_ws s = dropWhile json_ws s"

definition isdigit :: "char \<Rightarrow> bool" where
  "isdigit c = (c \<in> set ''0123456789'')"

text \<open>
  A number is what the pattern
  \<^verbatim>\<open>(-?(?:0|[1-9]\d*))(\.\d+)?([eE][-+]?\d+)?\<close> matches at the start of the text.
  Each part returns what it matched and the rest.
\<close>

definition scan_natural :: "string \<Rightarrow> (string \<times> string) option" where
  "scan_natural s =
     (case s of
        [] \<Rightarrow> None
      | c # cs \<Rightarrow>
          if c = CHR ''0'' then Some ([c], cs)
          else if isdigit c then Some (c # takeWhile isdigit cs, dropWhile isdigit cs)
          else None)"

definition scan_integer :: "string \<Rightarrow> (string \<times> string) option" where
  "scan_integer s =
     (case s of
        [] \<Rightarrow> None
      | c # cs \<Rightarrow>
          if c = CHR ''-'' then
            (case scan_natural cs of None \<Rightarrow> None | Some (ds, r) \<Rightarrow> Some (c # ds, r))
          else scan_natural s)"

definition scan_fraction :: "string \<Rightarrow> string \<times> string" where
  "scan_fraction s =
     (case s of
        [] \<Rightarrow> ([], s)
      | c # cs \<Rightarrow>
          if c = CHR ''.'' \<and> takeWhile isdigit cs \<noteq> []
          then (c # takeWhile isdigit cs, dropWhile isdigit cs)
          else ([], s))"

definition scan_exponent :: "string \<Rightarrow> string \<times> string" where
  "scan_exponent s =
     (case s of
        [] \<Rightarrow> ([], s)
      | c # cs \<Rightarrow>
          if c = CHR ''e'' \<or> c = CHR ''E'' then
            (let sign = (case cs of [] \<Rightarrow> [] | d # ds \<Rightarrow> if d = CHR ''+'' \<or> d = CHR ''-'' then [d] else []);
                 cs1 = drop (length sign) cs
             in if takeWhile isdigit cs1 \<noteq> []
                then (c # sign @ takeWhile isdigit cs1, dropWhile isdigit cs1)
                else ([], s))
          else ([], s))"

definition scan_number :: "string \<Rightarrow> (json \<times> string) option" where
  "scan_number s =
     (case scan_integer s of
        None \<Rightarrow> None
      | Some (i, r) \<Rightarrow>
          (case scan_fraction r of
             (f, r1) \<Rightarrow> (case scan_exponent r1 of (e, r2) \<Rightarrow> Some (JNum (i @ f @ e), r2))))"

text \<open>The escapes of one character, and the four hexadecimal digits of \<^verbatim>\<open>\uXXXX\<close>.\<close>

definition BACKSLASH :: "(char \<times> char) list" where
  "BACKSLASH = [(CHR 0x22, CHR 0x22), (CHR 0x5C, CHR 0x5C), (CHR ''/'', CHR ''/''),
                (CHR ''b'', CHR 0x08), (CHR ''f'', CHR 0x0C), (CHR ''n'', CHR 0x0A),
                (CHR ''r'', CHR 0x0D), (CHR ''t'', CHR 0x09)]"

definition hex_value :: "char \<Rightarrow> nat option" where
  "hex_value c = map_of (zip ''0123456789abcdefABCDEF''
                             [0, 1, 2, 3, 4, 5, 6, 7, 8, 9, 10, 11, 12, 13, 14, 15, 10, 11, 12, 13, 14, 15]) c"

definition decode_uXXXX :: "string \<Rightarrow> char option" where
  "decode_uXXXX s =
     (case map hex_value s of
        [Some a, Some b, Some c, Some d] \<Rightarrow>
          (if a = 0 \<and> b = 0 then Some (char_of (16 * c + d)) else None)
      | _ \<Rightarrow> None)"

text \<open>
  The body of a string, read after its opening quote, up to the closing quote: the decoded
  text and the rest. Control characters below \<^verbatim>\<open>\x20\<close> are not allowed in a string.
\<close>

fun scan_string :: "string \<Rightarrow> (string \<times> string) option" where
  "scan_string [] = None"
| "scan_string (c # cs) =
     (if c = CHR 0x22 then Some ([], cs)
      else if c = CHR 0x5C then
        (case cs of
           [] \<Rightarrow> None
         | e # r \<Rightarrow>
             if e = CHR ''u'' then
               (case decode_uXXXX (take 4 r) of
                  None \<Rightarrow> None
                | Some ch \<Rightarrow>
                    (case scan_string (drop 4 r) of
                       None \<Rightarrow> None
                     | Some (t, r1) \<Rightarrow> Some (ch # t, r1)))
             else
               (case map_of BACKSLASH e of
                  None \<Rightarrow> None
                | Some ch \<Rightarrow>
                    (case scan_string r of
                       None \<Rightarrow> None
                     | Some (t, r1) \<Rightarrow> Some (ch # t, r1))))
      else if (of_char c :: nat) < 32 then None
      else (case scan_string cs of None \<Rightarrow> None | Some (t, r1) \<Rightarrow> Some (c # t, r1)))"

text \<open>
  The result of scanning one value: the value and the rest of the text, a syntax error, or
  the recursion budget used up. The scanner is recursive on the nesting of the text, so it
  takes a budget that each call lowers; \<open>json_loads\<close> starts with more than the text can
  use.
\<close>

datatype scan = Decoded json string | Invalid | Exhausted

fun scan_once :: "nat \<Rightarrow> string \<Rightarrow> scan"
  and scan_array :: "nat \<Rightarrow> string \<Rightarrow> json list \<Rightarrow> scan"
  and scan_object :: "nat \<Rightarrow> string \<Rightarrow> (string \<times> json) list \<Rightarrow> scan" where
  "scan_once 0 s = Exhausted"
| "scan_once (Suc n) s =
     (case s of
        [] \<Rightarrow> Invalid
      | c # cs \<Rightarrow>
          if c = CHR 0x22 then
            (case scan_string cs of None \<Rightarrow> Invalid | Some (t, r) \<Rightarrow> Decoded (JStr t) r)
          else if c = CHR ''{'' then
            (case skip_ws cs of
               [] \<Rightarrow> Invalid
             | d # ds \<Rightarrow>
                 if d = CHR ''}'' then Decoded (JObj []) ds
                 else if d = CHR 0x22 then scan_object n ds []
                 else Invalid)
          else if c = CHR ''['' then
            (case skip_ws cs of
               [] \<Rightarrow> Invalid
             | d # ds \<Rightarrow>
                 if d = CHR '']'' then Decoded (JArr []) ds
                 else scan_array n (d # ds) [])
          else if startswith s ''null'' then Decoded JNull (drop 4 s)
          else if startswith s ''true'' then Decoded (JBool True) (drop 4 s)
          else if startswith s ''false'' then Decoded (JBool False) (drop 5 s)
          else
            (case scan_number s of
               Some (v, r) \<Rightarrow> Decoded v r
             | None \<Rightarrow>
                 if startswith s ''NaN'' then Decoded (JNum ''NaN'') (drop 3 s)
                 else if startswith s ''Infinity'' then Decoded (JNum ''Infinity'') (drop 8 s)
                 else if startswith s ''-Infinity'' then Decoded (JNum ''-Infinity'') (drop 9 s)
                 else Invalid))"
| "scan_array 0 s values = Exhausted"
| "scan_array (Suc n) s values =
     (case scan_once n s of
        Exhausted \<Rightarrow> Exhausted
      | Invalid \<Rightarrow> Invalid
      | Decoded v r \<Rightarrow>
          (case skip_ws r of
             [] \<Rightarrow> Invalid
           | d # ds \<Rightarrow>
               if d = CHR '']'' then Decoded (JArr (values @ [v])) ds
               else if d = CHR '','' then scan_array n (skip_ws ds) (values @ [v])
               else Invalid))"
| "scan_object 0 s pairs = Exhausted"
| "scan_object (Suc n) s pairs =
     (case scan_string s of
        None \<Rightarrow> Invalid
      | Some (key, r) \<Rightarrow>
          (case skip_ws r of
             [] \<Rightarrow> Invalid
           | d # ds \<Rightarrow>
               if d \<noteq> CHR '':'' then Invalid
               else
                 (case scan_once n (skip_ws ds) of
                    Exhausted \<Rightarrow> Exhausted
                  | Invalid \<Rightarrow> Invalid
                  | Decoded v r2 \<Rightarrow>
                      (case skip_ws r2 of
                         [] \<Rightarrow> Invalid
                       | e # es \<Rightarrow>
                           if e = CHR ''}'' then Decoded (JObj (dict_set pairs key v)) es
                           else if e = CHR '','' then
                             (case skip_ws es of
                                [] \<Rightarrow> Invalid
                              | q # qs \<Rightarrow>
                                  if q = CHR 0x22 then scan_object n qs (dict_set pairs key v)
                                  else Invalid)
                           else Invalid))))"

definition json_loads :: "string \<Rightarrow> json option" where
  "json_loads s =
     (case scan_once (Suc (Suc (2 * length s))) (skip_ws s) of
        Decoded v r \<Rightarrow> if skip_ws r = [] then Some v else None
      | Invalid \<Rightarrow> None
      | Exhausted \<Rightarrow> None)"

text \<open>
  \<^verbatim>\<open>json.dumps\<close> with its default settings: the separators \<^verbatim>\<open>", "\<close> and \<^verbatim>\<open>": "\<close>,
  and every character outside the printable ASCII range escaped.
\<close>

definition hex_digit :: "nat \<Rightarrow> char" where
  "hex_digit n = ''0123456789abcdef'' ! n"

definition escape_char :: "char \<Rightarrow> string" where
  "escape_char c =
     (if c = CHR 0x22 then [CHR 0x5C, CHR 0x22]
      else if c = CHR 0x5C then [CHR 0x5C, CHR 0x5C]
      else if c = CHR 0x0A then [CHR 0x5C, CHR ''n'']
      else if c = CHR 0x0D then [CHR 0x5C, CHR ''r'']
      else if c = CHR 0x09 then [CHR 0x5C, CHR ''t'']
      else if c = CHR 0x08 then [CHR 0x5C, CHR ''b'']
      else if c = CHR 0x0C then [CHR 0x5C, CHR ''f'']
      else if 32 \<le> (of_char c :: nat) \<and> (of_char c :: nat) \<le> 126 then [c]
      else [CHR 0x5C, CHR ''u'', CHR ''0'', CHR ''0'',
            hex_digit ((of_char c :: nat) div 16), hex_digit ((of_char c :: nat) mod 16)])"

definition encode_string :: "string \<Rightarrow> string" where
  "encode_string s = [CHR 0x22] @ concat (map escape_char s) @ [CHR 0x22]"

fun join :: "string \<Rightarrow> string list \<Rightarrow> string" where
  "join sep [] = []"
| "join sep [x] = x"
| "join sep (x # y # ys) = x @ sep @ join sep (y # ys)"

fun json_dumps :: "json \<Rightarrow> string" where
  "json_dumps JNull = ''null''"
| "json_dumps (JBool b) = (if b then ''true'' else ''false'')"
| "json_dumps (JNum n) = n"
| "json_dumps (JStr s) = encode_string s"
| "json_dumps (JArr vs) = ''['' @ join '', '' (map json_dumps vs) @ '']''"
| "json_dumps (JObj ps) =
     ''{'' @ join '', '' (map (\<lambda>p. encode_string (fst p) @ '': '' @ json_dumps (snd p)) ps) @ ''}''"

section \<open>Parsing a message\<close>

definition MAX_CONTENT_LENGTH :: nat where
  "MAX_CONTENT_LENGTH = 2000"

definition MAX_SOURCE_LENGTH :: nat where
  "MAX_SOURCE_LENGTH = 500"

definition ALLOWED_BREACH_TYPES :: "string list" where
  "ALLOWED_BREACH_TYPES =
     [''Data leak'', ''Security breach'', ''Privacy violation'', ''Ransomware'', ''Malware'',
      ''Phishing'', ''DDoS'', ''Other'']"

text \<open>
  The three \<^verbatim>\<open>if key not in parsed\<close> statements that give an object its missing fields.
\<close>

definition fill_defaults :: "message \<Rightarrow> string \<Rightarrow> message" where
  "fill_defaults parsed clean =
     (let p1 = (if map_of parsed ''Content'' = None then dict_set parsed ''Content'' (JStr clean) else parsed);
          p2 = (if map_of p1 ''Source'' = None then dict_set p1 ''Source'' (JStr ''Unknown'') else p1);
          p3 = (if map_of p2 ''Type'' = None then dict_set p2 ''Type'' (JStr ''Data leak'') else p2)
      in p3)"

text \<open>
  The loop over \<^verbatim>\<open>parsed.items()\<close> of \<^verbatim>\<open>parse_message_content\<close>: a text value under
  \<^verbatim>\<open>Content\<close> or \<^verbatim>\<open>Source\<close> is cut to its maximum length. The loop only replaces
  values, so it is a map over the items.
\<close>

definition cap_item :: "string \<times> json \<Rightarrow> string \<times> json" where
  "cap_item item =
     (case item of
        (key, JStr v) \<Rightarrow>
          if key = ''Content'' \<and> length v > MAX_CONTENT_LENGTH then (key, JStr (take MAX_CONTENT_LENGTH v))
          else if key = ''Source'' \<and> length v > MAX_SOURCE_LENGTH then (key, JStr (take MAX_SOURCE_LENGTH v))
          else (key, JStr v)
      | (key, other) \<Rightarrow> (key, other))"

text \<open>
  The same loop in \<^verbatim>\<open>parse_json_message\<close>, which has one more branch: a text value under
  \<^verbatim>\<open>Type\<close> that is not an allowed type becomes \<^verbatim>\<open>"Other"\<close>.
\<close>

definition cap_item_full :: "string \<times> json \<Rightarrow> string \<times> json" where
  "cap_item_full item =
     (case item of
        (key, JStr v) \<Rightarrow>
          if key = ''Content'' \<and> length v > MAX_CONTENT_LENGTH then (key, JStr (take MAX_CONTENT_LENGTH v))
          else if key = ''Source'' \<and> length v > MAX_SOURCE_LENGTH then (key, JStr (take MAX_SOURCE_LENGTH v))
          else if key = ''Type'' then
            (if v \<notin> set ALLOWED_BREACH_TYPES then (key, JStr ''Other'') else (key, JStr v))
          else (key, JStr v)
      | (key, other) \<Rightarrow> (key, other))"

text \<open>The dict of the plain-text return of \<^verbatim>\<open>parse_message_content\<close>.\<close>

definition plain_record :: "string \<Rightarrow> message" where
  "plain_record clean =
     [(''Content'', JStr clean), (''Source'', JStr ''Unknown''), (''Type'', JStr ''Data leak'')]"

text \<open>
  The loop \<^verbatim>\<open>for attempt in range(2)\<close> of \<^verbatim>\<open>MessageParser.parse_message_content\<close>;
  the first argument is the number of attempts left. A decoding error breaks out of the
  loop, a decoded text is tried again, a decoded object gets its defaults and caps and is
  returned, any other decoded value is returned as it is. After the loop comes the
  plain-text record. The result \<open>None\<close> is Python's \<^verbatim>\<open>None\<close>, which is also what a decoded
  \<^verbatim>\<open>null\<close> is.
\<close>

fun parse_attempts :: "nat \<Rightarrow> string \<Rightarrow> json option" where
  "parse_attempts 0 clean = Some (JObj (plain_record clean))"
| "parse_attempts (Suc attempts) clean =
     (case json_loads clean of
        None \<Rightarrow> Some (JObj (plain_record clean))
      | Some (JStr s) \<Rightarrow> parse_attempts attempts s
      | Some (JObj parsed) \<Rightarrow> Some (JObj (map cap_item (fill_defaults parsed clean)))
      | Some JNull \<Rightarrow> None
      | Some other \<Rightarrow> Some other)"

text \<open>
  \<^verbatim>\<open>MessageParser.parse_message_content\<close> of \<^verbatim>\<open>fetch_secure_session_improved.py\<close>. The
  argument is any Python value.
\<close>

definition parse_message_content :: "json \<Rightarrow> json option" where
  "parse_message_content message_text =
     (case message_text of
        JStr t \<Rightarrow>
          (let clean = clean_text message_text;
               clean1 = (if length clean > MAX_CONTENT_LENGTH then take MAX_CONTENT_LENGTH clean else clean)
           in parse_attempts (Suc (Suc 0)) clean1)
      | _ \<Rightarrow> None)"

text \<open>
  The loop of \<^verbatim>\<open>FullHistoryFetcher.parse_json_message\<close>. Only a decoded object whose
  \<^verbatim>\<open>Content\<close> is relevant is returned; everything else gives \<^verbatim>\<open>None\<close>. A \<^verbatim>\<open>Content\<close>
  that is not a text is either falsy, and then not relevant, or makes
  \<^verbatim>\<open>content.lower()\<close> raise inside the \<^verbatim>\<open>try\<close>, whose handler returns \<^verbatim>\<open>None\<close>.
\<close>

fun parse_json_attempts :: "nat \<Rightarrow> string \<Rightarrow> message option" where
  "parse_json_attempts 0 clean = None"
| "parse_json_attempts (Suc attempts) clean =
     (case json_loads clean of
        None \<Rightarrow> None
      | Some (JStr s) \<Rightarrow> parse_json_attempts attempts s
      | Some (JObj parsed) \<Rightarrow>
          (let p = map cap_item_full (fill_defaults parsed clean) in
           (case dict_get p ''Content'' (JStr []) of
              JStr c \<Rightarrow> if is_relevant_breach c then Some p else None
            | _ \<Rightarrow> None))
      | Some other \<Rightarrow> None)"

definition parse_json_message :: "json \<Rightarrow> message option" where
  "parse_json_message message_text =
     (case message_text of
        JStr t \<Rightarrow>
          (let clean = clean_text message_text;
               clean1 = (if length clean > MAX_CONTENT_LENGTH then take MAX_CONTENT_LENGTH clean else clean)
           in parse_json_attempts (Suc (Suc 0)) clean1)
      | _ \<Rightarrow> None)"

section \<open>Validation: \<^verbatim>\<open>DataProcessor.validate_message_structure\<close>\<close>

text \<open>
  The required field, the stripped content (which raises on a value that is not a text),
  the emptiness and length checks, and the classifier.
\<close>

definition validate_message_structure :: "message \<Rightarrow> py_error + bool" where
  "validate_message_structure message =
     (if map_of message ''Content'' = None then Inr False
      else
        (case dict_get message ''Content'' (JStr []) of
           JStr c \<Rightarrow>
             (let content = strip c in
              if content = [] then Inr False
              else if length content > MAX_CONTENT_LENGTH then Inr False
              else Inr (is_legitimate_breach content))
         | _ \<Rightarrow> Inl AttributeError))"

section \<open>Auxiliary notions for the parser\<close>

text \<open>
  The characters of a text that decodes to the empty object: the two braces and JSON
  whitespace.
\<close>

definition brace_chars :: "char list" where
  "brace_chars = [CHR ''{'', CHR ''}'', CHR 0x20, CHR 0x09, CHR 0x0A, CHR 0x0D]"

text \<open>A record whose \<^verbatim>\<open>Type\<close> is a text of the allowed list.\<close>

definition has_allowed_type :: "message \<Rightarrow> bool" where
  "has_allowed_type record =
     (case map_of record ''Type'' of
        Some (JStr ty) \<Rightarrow> ty \<in> set ALLOWED_BREACH_TYPES
      | _ \<Rightarrow> False)"

section \<open>Sample data\<close>

text \<open>
  A small store and a small batch on which the statements below are exercised. The second
  batch record repeats the text of the first store record under another source; the third
  is an advertisement. \<open>sample_digest\<close> is a stand-in for the digest in these examples.
\<close>

definition sample_digest :: "string \<Rightarrow> string" where
  "sample_digest content = content"

definition sample_store :: "message list" where
  "sample_store =
     [[(''Content'', JStr ''Database leak at example.org''), (''Source'', JStr ''example.org''),
       (''Type'', JStr ''Data leak'')],
      [(''Content'', JStr ''Stolen password dump''), (''Source'', JStr ''Unknown''),
       (''Type'', JStr ''Data leak'')]]"

definition sample_batch :: "message list" where
  "sample_batch =
     [[(''Content'', JStr ''Credit card breach''), (''Source'', JStr ''Unknown''),
       (''Type'', JStr ''Data leak'')],
      [(''Content'', JStr '' Database leak at example.org ''), (''Source'', JStr ''mirror.net''),
       (''Type'', JStr ''Other'')],
      [(''Content'', JStr ''Buy our tool''), (''Source'', JStr ''Unknown''),
       (''Type'', JStr ''Data leak'')]]"

definition sample_batch_resourced :: "message list" where
  "sample_batch_resourced =
     [[(''Content'', JStr ''Credit card breach''), (''Source'', JStr ''paste.site''),
       (''message_id'', JNum ''7'')],
      [(''Content'', JStr '' Database leak at example.org '')],
      [(''Content'', JStr ''Buy our tool''), (''hash_id'', JStr ''0123456789abcdef'')]]"

text \<open>
  A structured message whose \<^verbatim>\<open>Type\<close> is not an allowed type, as raw text and as the
  object that the text encodes.
\<close>

definition bogus_type_text :: string where
  \<open>bogus_type_text = ''{"Source": "test.com", "Content": "Database breach exposed", "Type": "Bogus"}''\<close>

definition bogus_type_object :: message where
  "bogus_type_object =
     [(''Source'', JStr ''test.com''), (''Content'', JStr ''Database breach exposed''),
      (''Type'', JStr ''Bogus'')]"

text \<open>The raw text of the structured-input scenario.\<close>

definition scenario_text :: string where
  \<open>scenario_text = ''{"Source": "test.com", "Content": "Database breach exposed 10000 user credentials", "Type": "Data leak"}''\<close>

section \<open>Properties of the classifier\<close>

lemma indicator_score_empty: "list_all (\<lambda>k. k \<noteq> []) L \<Longrightarrow> indicator_score L [] = 0"
  by (induction L) (simp_all add: indicator_score_def)

lemma legitimate_iff_scores:
  "is_legitimate_breach content \<longleftrightarrow>
     breach_score content > spam_score content \<and> breach_score content > 0"
proof (cases "content = []")
  case True
  have "indicator_score BREACH_INDICATORS [] = 0"
    by (rule indicator_score_empty) (simp add: BREACH_INDICATORS_def)
  with True show ?thesis
    by (simp add: is_legitimate_breach_def breach_score_def lower_def)
next
  case False
  then show ?thesis
    by (simp add: is_legitimate_breach_def breach_score_def spam_score_def Let_def)
qed

lemma relevant_iff_scores:
  "is_relevant_breach content \<longleftrightarrow>
     breach_score_full content > spam_score_full content \<and> breach_score_full content > 0"
proof (cases "content = []")
  case True
  have "indicator_score BREACH_INDICATORS_full [] = 0"
    by (rule indicator_score_empty) (simp add: BREACH_INDICATORS_full_def)
  with True show ?thesis
    by (simp add: is_relevant_breach_def breach_score_full_def lower_def)
next
  case False
  then show ?thesis
    by (simp add: is_relevant_breach_def breach_score_full_def spam_score_full_def Let_def)
qed

lemma card_filter_distinct: "distinct L \<Longrightarrow> card {k \<in> set L. P k} = length (filter P L)"
proof -
  assume "distinct L"
  then have "distinct (filter P L)" by simp
  then have "card (set (filter P L)) = length (filter P L)" by (rule distinct_card)
  then show ?thesis by simp
qed

lemma breach_score_card:
  "breach_score content = card {k \<in> set BREACH_INDICATORS. contains (lower content) k}"
proof -
  have "distinct BREACH_INDICATORS" by (simp add: BREACH_INDICATORS_def)
  then show ?thesis by (simp add: card_filter_distinct breach_score_def indicator_score_def)
qed

lemma spam_score_card:
  "spam_score content = card {k \<in> set SPAM_INDICATORS. contains (lower content) k}"
proof -
  have "distinct SPAM_INDICATORS" by (simp add: SPAM_INDICATORS_def)
  then show ?thesis by (simp add: card_filter_distinct spam_score_def indicator_score_def)
qed

text \<open>
  The two lists of \<^verbatim>\<open>fetch_entire_history.py\<close> are scored entry by entry, and
  \<^verbatim>\<open>'database'\<close> is entered twice: a text that mentions it gets two points for it.
\<close>

lemma database_counted_twice:
  "breach_score_full ''database buy'' = 2 \<and> spam_score_full ''database buy'' = 1
   \<and> is_relevant_breach ''database buy'' \<and> \<not> is_legitimate_breach ''database buy''"
  by (simp add: breach_score_full_def spam_score_full_def is_relevant_breach_def
        is_legitimate_breach_def indicator_score_def lower_def lower_char_def
        upper_letters_def lower_letters_def BREACH_INDICATORS_full_def SPAM_INDICATORS_full_def
        BREACH_INDICATORS_def SPAM_INDICATORS_def)

text \<open>
  What holds of the two classifiers for every text: each answers true exactly when its
  breach score exceeds its spam score and is positive, and the empty text is never a
  breach. In \<^verbatim>\<open>DataProcessor\<close> each score is the number of keywords of its list that
  occur in the lower-cased text; in \<^verbatim>\<open>fetch_entire_history.py\<close> it is the number of
  list entries that occur, which is not the same number.
\<close>

lemma classifier_is_score_comparison:
  "(is_legitimate_breach content \<longleftrightarrow>
      breach_score content > spam_score content \<and> breach_score content > 0)
   \<and> breach_score content = card {k \<in> set BREACH_INDICATORS. contains (lower content) k}
   \<and> spam_score content = card {k \<in> set SPAM_INDICATORS. contains (lower content) k}
   \<and> (is_relevant_breach content \<longleftrightarrow>
      breach_score_full content > spam_score_full content \<and> breach_score_full content > 0)
   \<and> breach_score_full content =
       length (filter (\<lambda>k. contains (lower content) k) BREACH_INDICATORS_full)
   \<and> spam_score_full content =
       length (filter (\<lambda>k. contains (lower content) k) SPAM_INDICATORS_full)
   \<and> \<not> is_legitimate_breach [] \<and> \<not> is_relevant_breach []"
  using legitimate_iff_scores[of content] relevant_iff_scores[of content]
    breach_score_card[of content] spam_score_card[of content]
  by (simp add: is_legitimate_breach_def is_relevant_breach_def breach_score_full_def
        spam_score_full_def indicator_score_def)

lemma hacked_database_scores:
  "breach_score ''Hacked DATABASE, buy now'' = 2 \<and> spam_score ''Hacked DATABASE, buy now'' = 1"
  by (simp add: breach_score_def spam_score_def indicator_score_def lower_def lower_char_def
        upper_letters_def lower_letters_def BREACH_INDICATORS_def SPAM_INDICATORS_def)

lemma hacked_database_classified:
  "is_legitimate_breach ''Hacked DATABASE, buy now''
   \<and> breach_score ''Hacked DATABASE, buy now'' = 2
   \<and> spam_score ''Hacked DATABASE, buy now'' = 1"
  using classifier_is_score_comparison[of "''Hacked DATABASE, buy now''"] hacked_database_scores
  by simp

lemma members_as_filter: "{k \<in> set L. P k} = set (filter P L)"
  by auto

text \<open>
  Claim C2 at the text \<^verbatim>\<open>database buy\<close>, for \<^verbatim>\<open>is_relevant_breach\<close>. One keyword of the
  breach list occurs in it, \<^verbatim>\<open>database\<close>, and one keyword of the spam list, \<^verbatim>\<open>buy\<close>; by
  the claim's count the text is not a breach. The list of \<^verbatim>\<open>fetch_entire_history.py\<close>
  holds \<^verbatim>\<open>'database'\<close> twice, the code scores two against one, and the answer is true.
\<close>

theorem relevant_breach_counts_database_twice:
  "is_relevant_breach ''database buy''
   \<and> breach_score_full ''database buy'' = 2
   \<and> spam_score_full ''database buy'' = 1
   \<and> filter (\<lambda>k. contains (lower ''database buy'') k) BREACH_INDICATORS_full
       = [''database'', ''database'']
   \<and> card {k \<in> set BREACH_INDICATORS_full. contains (lower ''database buy'') k} = 1
   \<and> card {k \<in> set SPAM_INDICATORS_full. contains (lower ''database buy'') k} = 1"
proof -
  have b: "filter (\<lambda>k. contains (lower ''database buy'') k) BREACH_INDICATORS_full
             = [''database'', ''database'']"
    by (simp add: lower_def lower_char_def upper_letters_def lower_letters_def
          BREACH_INDICATORS_full_def)
  have s: "filter (\<lambda>k. contains (lower ''database buy'') k) SPAM_INDICATORS_full = [''buy'']"
    by (simp add: lower_def lower_char_def upper_letters_def lower_letters_def
          SPAM_INDICATORS_full_def)
  have scores: "breach_score_full ''database buy'' = 2" "spam_score_full ''database buy'' = 1"
    using b s by (simp_all add: breach_score_full_def spam_score_full_def indicator_score_def)
  have rel: "is_relevant_breach ''database buy''"
    using b s by (simp add: is_relevant_breach_def indicator_score_def Let_def)
  have cb: "card {k \<in> set BREACH_INDICATORS_full. contains (lower ''database buy'') k} = 1"
    unfolding members_as_filter b by simp
  have cs: "card {k \<in> set SPAM_INDICATORS_full. contains (lower ''database buy'') k} = 1"
    unfolding members_as_filter s by simp
  from rel scores b cb cs show ?thesis by simp
qed

section \<open>Stripping and the classifier\<close>

lemma startswith_iff: "startswith s k \<longleftrightarrow> (\<exists>b. s = k @ b)"
  by (induction s k rule: startswith.induct) auto

lemma contains_iff: "contains s k \<longleftrightarrow> (\<exists>a b. s = a @ k @ b)"
proof (induction s)
  case Nil
  then show ?case by simp
next
  case (Cons c cs)
  show ?case
  proof
    assume "contains (c # cs) k"
    then consider "startswith (c # cs) k" | "contains cs k" by auto
    then show "\<exists>a b. c # cs = a @ k @ b"
    proof cases
      case 1
      then obtain b where "c # cs = k @ b" by (auto simp: startswith_iff)
      then have "c # cs = [] @ k @ b" by simp
      then show ?thesis by blast
    next
      case 2
      with Cons.IH obtain a b where "cs = a @ k @ b" by blast
      then have "c # cs = (c # a) @ k @ b" by simp
      then show ?thesis by blast
    qed
  next
    assume "\<exists>a b. c # cs = a @ k @ b"
    then obtain a b where ab: "c # cs = a @ k @ b" by blast
    show "contains (c # cs) k"
    proof (cases a)
      case Nil
      with ab have "startswith (c # cs) k" by (auto simp: startswith_iff)
      then show ?thesis by simp
    next
      case (Cons x a')
      with ab have "cs = a' @ k @ b" by simp
      with Cons.IH have "contains cs k" by blast
      then show ?thesis by simp
    qed
  qed
qed

lemma contains_rev: "contains (rev s) (rev k) = contains s k"
proof -
  have "(\<exists>a b. rev s = a @ rev k @ b) \<longleftrightarrow> (\<exists>a b. s = a @ k @ b)"
  proof
    assume "\<exists>a b. rev s = a @ rev k @ b"
    then obtain a b where "rev s = a @ rev k @ b" by blast
    then have "rev (rev s) = rev (a @ rev k @ b)" by simp
    then have "s = rev b @ k @ rev a" by simp
    then show "\<exists>a b. s = a @ k @ b" by blast
  next
    assume "\<exists>a b. s = a @ k @ b"
    then obtain a b where "s = a @ k @ b" by blast
    then have "rev s = rev b @ rev k @ rev a" by simp
    then show "\<exists>a b. rev s = a @ rev k @ b" by blast
  qed
  then show ?thesis by (simp add: contains_iff)
qed

lemma contains_dropWhile:
  assumes "k \<noteq> []" and "\<not> P (hd k)"
  shows "contains (dropWhile P s) k = contains s k"
proof (induction s)
  case Nil
  then show ?case by simp
next
  case (Cons c cs)
  show ?case
  proof (cases "P c")
    case True
    with assms have "\<not> startswith (c # cs) k" by (cases k) auto
    with True Cons.IH show ?thesis by simp
  next
    case False
    then show ?thesis by simp
  qed
qed

lemma contains_strip_gen:
  assumes "k \<noteq> []" and "\<not> P (hd k)" and "\<not> P (last k)"
  shows "contains (rev (dropWhile P (rev (dropWhile P s)))) k = contains s k"
proof -
  have rk: "rev k \<noteq> []" "\<not> P (hd (rev k))" using assms by (simp_all add: hd_rev)
  have "contains (rev (dropWhile P (rev (dropWhile P s)))) k
        = contains (dropWhile P (rev (dropWhile P s))) (rev k)"
    using contains_rev[of "dropWhile P (rev (dropWhile P s))" "rev k"] by simp
  also have "\<dots> = contains (rev (dropWhile P s)) (rev k)"
    using rk by (rule contains_dropWhile)
  also have "\<dots> = contains (dropWhile P s) k" by (rule contains_rev)
  also have "\<dots> = contains s k" using assms(1,2) by (rule contains_dropWhile)
  finally show ?thesis .
qed

lemma isspace_lower_char: "isspace (lower_char c) = isspace c"
proof (cases "map_of (zip upper_letters lower_letters) c")
  case None
  then show ?thesis by (simp add: lower_char_def)
next
  case (Some d)
  then have "(c, d) \<in> set (zip upper_letters lower_letters)" by (rule map_of_SomeD)
  then have "\<not> isspace c \<and> \<not> isspace d"
    by (auto simp: upper_letters_def lower_letters_def isspace_def)
  with Some show ?thesis by (simp add: lower_char_def)
qed

lemma lower_dropWhile: "lower (dropWhile isspace s) = dropWhile isspace (lower s)"
  by (induction s) (simp_all add: lower_def isspace_lower_char)

lemma lower_strip: "lower (strip s) = strip (lower s)"
proof -
  have "lower (rev (dropWhile isspace (rev (dropWhile isspace s))))
        = rev (lower (dropWhile isspace (rev (dropWhile isspace s))))"
    by (simp add: lower_def rev_map)
  also have "\<dots> = rev (dropWhile isspace (lower (rev (dropWhile isspace s))))"
    by (simp add: lower_dropWhile)
  also have "\<dots> = rev (dropWhile isspace (rev (lower (dropWhile isspace s))))"
    by (simp add: lower_def rev_map)
  also have "\<dots> = rev (dropWhile isspace (rev (dropWhile isspace (lower s))))"
    by (simp add: lower_dropWhile)
  finally show ?thesis by (simp add: strip_def)
qed

lemma indicator_score_strip:
  "list_all solid L \<Longrightarrow> indicator_score L (lower (strip s)) = indicator_score L (lower s)"
proof -
  assume L: "list_all solid L"
  have "filter (\<lambda>k. contains (strip (lower s)) k) L = filter (\<lambda>k. contains (lower s) k) L"
  proof (rule filter_cong[OF refl])
    fix k assume "k \<in> set L"
    with L have "solid k" by (simp add: list_all_iff)
    then show "contains (strip (lower s)) k = contains (lower s) k"
      unfolding strip_def solid_def by (intro contains_strip_gen) simp_all
  qed
  then show ?thesis by (simp add: indicator_score_def lower_strip)
qed

lemma indicators_solid: "list_all solid BREACH_INDICATORS \<and> list_all solid SPAM_INDICATORS"
  by (simp add: BREACH_INDICATORS_def SPAM_INDICATORS_def solid_def isspace_def)

lemma legitimate_strip:
  "strip c \<noteq> [] \<Longrightarrow> is_legitimate_breach (strip c) = is_legitimate_breach c"
proof -
  assume ne: "strip c \<noteq> []"
  then have "c \<noteq> []" by (auto simp: strip_def)
  with ne show ?thesis
    using indicators_solid
    by (simp add: is_legitimate_breach_def indicator_score_strip Let_def)
qed

lemma legitimate_strip_empty: "strip c = [] \<Longrightarrow> \<not> is_legitimate_breach c"
proof -
  assume e: "strip c = []"
  have "indicator_score BREACH_INDICATORS (lower c) = indicator_score BREACH_INDICATORS (lower (strip c))"
    using indicators_solid by (simp add: indicator_score_strip)
  also have "\<dots> = 0" using e
    by (simp add: lower_def) (rule indicator_score_empty, simp add: BREACH_INDICATORS_def)
  finally show ?thesis by (simp add: is_legitimate_breach_def Let_def)
qed

lemma passes_filter_iff:
  "dict_get m ''Content'' (JStr []) = JStr c \<Longrightarrow> passes_filter m = is_legitimate_breach c"
proof (cases "strip c = []")
  case True
  assume "dict_get m ''Content'' (JStr []) = JStr c"
  with True legitimate_strip_empty[OF True] show ?thesis
    by (simp add: passes_filter_def message_content_def)
next
  case False
  assume "dict_get m ''Content'' (JStr []) = JStr c"
  with False legitimate_strip[OF False] show ?thesis
    by (simp add: passes_filter_def message_content_def)
qed

section \<open>Properties of the deduplication\<close>

lemma dedup_loop_appended:
  "list_all has_text_content ms \<Longrightarrow>
   dedup_loop H ms (seen, u) =
     Inr (seen \<union> message_hash H ` set (appended H seen ms), u @ appended H seen ms)"
proof (induction ms arbitrary: seen u)
  case Nil
  then show ?case by simp
next
  case (Cons m ms)
  from Cons.prems obtain c where c: "dict_get m ''Content'' (JStr []) = JStr c"
    by (auto simp: has_text_content_def split: json.splits)
  from Cons.prems have rest: "list_all has_text_content ms" by simp
  show ?case
    using c Cons.IH[OF rest]
    by (simp add: passes_filter_def message_content_def message_hash_def Let_def)
qed

lemma dedup_loop_raises:
  "\<not> list_all has_text_content ms \<Longrightarrow> dedup_loop H ms (seen, u) = Inl AttributeError"
proof (induction ms arbitrary: seen u)
  case Nil
  then show ?case by simp
next
  case (Cons m ms)
  show ?case
  proof (cases "has_text_content m")
    case True
    then obtain c where c: "dict_get m ''Content'' (JStr []) = JStr c"
      by (auto simp: has_text_content_def split: json.splits)
    from True Cons.prems have "\<not> list_all has_text_content ms" by simp
    from Cons.IH[OF this] c show ?thesis by (simp add: Let_def)
  next
    case False
    then show ?thesis by (auto simp: has_text_content_def split: json.splits)
  qed
qed

lemma appended_subseq: "subseq (appended H seen ms) ms"
  by (induction ms arbitrary: seen) auto

lemma appended_member:
  "m \<in> set (appended H seen ms) \<Longrightarrow> passes_filter m \<and> message_hash H m \<notin> seen \<and> m \<in> set ms"
  by (induction ms arbitrary: seen) (auto split: if_splits)

lemma appended_distinct: "distinct (map (message_hash H) (appended H seen ms))"
  by (induction ms arbitrary: seen) (auto dest: appended_member)

lemma appended_complete:
  "m \<in> set ms \<Longrightarrow> passes_filter m \<Longrightarrow>
   message_hash H m \<in> seen \<union> message_hash H ` set (appended H seen ms)"
proof (induction ms arbitrary: seen)
  case Nil
  then show ?case by simp
next
  case (Cons a ms)
  then show ?case by (cases "m = a") (auto split: if_splits)
qed

lemma appended_append:
  "appended H seen (xs @ ys) =
     appended H seen xs @ appended H (seen \<union> message_hash H ` set (appended H seen xs)) ys"
  by (induction xs arbitrary: seen) auto

lemma appended_stable:
  "list_all passes_filter ms \<Longrightarrow> distinct (map (message_hash H) ms) \<Longrightarrow>
   message_hash H ` set ms \<inter> seen = {} \<Longrightarrow> appended H seen ms = ms"
  by (induction ms arbitrary: seen) auto

lemma appended_typed:
  "list_all has_text_content ms \<Longrightarrow> list_all has_text_content (appended H seen ms)"
  by (induction ms arbitrary: seen) auto

lemma appended_idem: "appended H {} (appended H {} ms) = appended H {} ms"
proof (rule appended_stable)
  show "list_all passes_filter (appended H {} ms)"
    using appended_member[of _ H "{}" ms] by (auto simp: list_all_iff)
  show "distinct (map (message_hash H) (appended H {} ms))" by (rule appended_distinct)
  show "message_hash H ` set (appended H {} ms) \<inter> {} = {}" by simp
qed

lemma deduplicate_typed:
  assumes "list_all has_text_content existing" and "list_all has_text_content new"
  shows "deduplicate_messages H existing new =
           Inr (appended H {} existing @
                appended H (message_hash H ` set (appended H {} existing)) new)"
  using assms by (simp add: deduplicate_messages_def dedup_loop_appended)

lemma deduplicate_raises:
  assumes "\<not> (list_all has_text_content existing \<and> list_all has_text_content new)"
  shows "deduplicate_messages H existing new = Inl AttributeError"
proof (cases "list_all has_text_content existing")
  case True
  with assms have "\<not> list_all has_text_content new" by simp
  with True show ?thesis
    by (simp add: deduplicate_messages_def dedup_loop_appended dedup_loop_raises)
next
  case False
  then show ?thesis by (simp add: deduplicate_messages_def dedup_loop_raises)
qed

lemma deduplicate_as_one_list:
  assumes "list_all has_text_content existing" and "list_all has_text_content new"
  shows "deduplicate_messages H existing new = Inr (appended H {} (existing @ new))"
  using assms by (simp add: deduplicate_typed appended_append)

lemma appended_nths:
  "list_all2 (\<lambda>a b. map_of a ''Content'' = map_of b ''Content'') ms ms' \<Longrightarrow>
   \<exists>I. appended H seen ms = nths ms I \<and> appended H seen ms' = nths ms' I"
proof (induction ms ms' arbitrary: seen rule: list_all2_induct)
  case Nil
  then show ?case by simp
next
  case (Cons a ms b ms')
  have same: "passes_filter a = passes_filter b" "message_hash H a = message_hash H b"
    using Cons.hyps(1)
    by (simp_all add: passes_filter_def message_hash_def message_content_def dict_get_def)
  show ?case
  proof (cases "passes_filter a \<and> message_hash H a \<notin> seen")
    case True
    from Cons.IH[of "insert (message_hash H a) seen"] obtain I where
      I: "appended H (insert (message_hash H a) seen) ms = nths ms I"
         "appended H (insert (message_hash H a) seen) ms' = nths ms' I" by blast
    have "{j. Suc j \<in> insert 0 (Suc ` I)} = I" by auto
    with True same I show ?thesis
      by (intro exI[of _ "insert 0 (Suc ` I)"]) (simp add: nths_Cons)
  next
    case False
    from Cons.IH[of seen] obtain I where
      I: "appended H seen ms = nths ms I" "appended H seen ms' = nths ms' I" by blast
    have "{j. Suc j \<in> Suc ` I} = I" by auto
    with False same I show ?thesis
      by (intro exI[of _ "Suc ` I"]) (auto simp add: nths_Cons)
  qed
qed

lemma same_content_typed:
  "list_all2 (\<lambda>a b. map_of a ''Content'' = map_of b ''Content'') ms ms' \<Longrightarrow>
   list_all has_text_content ms = list_all has_text_content ms'"
  by (induction ms ms' rule: list_all2_induct) (simp_all add: has_text_content_def dict_get_def)

text \<open>
  Claim C1. On stores and batches whose \<^verbatim>\<open>Content\<close> values are texts, the merge returns
  the records kept from the existing store followed by the records kept from the batch, each
  in its original order. No two returned records have the same key. Every existing record
  that passes the filter has its key among the kept existing records, and no kept batch
  record has the key, or the stripped text, of an existing record: where both lists offer
  a key, the record in the output is the existing one.
\<close>

theorem dedup_unique_existing_first:
  assumes "list_all has_text_content existing" and "list_all has_text_content new"
  shows "\<exists>kept_existing kept_new.
           deduplicate_messages H existing new = Inr (kept_existing @ kept_new)
         \<and> subseq kept_existing existing \<and> subseq kept_new new
         \<and> distinct (map (message_hash H) (kept_existing @ kept_new))
         \<and> (\<forall>e \<in> set existing. passes_filter e \<longrightarrow>
               message_hash H e \<in> message_hash H ` set kept_existing)
         \<and> (\<forall>e \<in> set existing. \<forall>n \<in> set kept_new. passes_filter e \<longrightarrow>
               message_hash H n \<noteq> message_hash H e)
         \<and> (\<forall>e \<in> set existing. \<forall>n \<in> set kept_new.
               message_content n \<noteq> message_content e)"
proof -
  let ?ke = "appended H {} existing"
  let ?kn = "appended H (message_hash H ` set ?ke) new"
  have out: "deduplicate_messages H existing new = Inr (?ke @ ?kn)"
    using assms by (rule deduplicate_typed)
  have one: "?ke @ ?kn = appended H {} (existing @ new)"
    by (simp add: appended_append)
  have dist: "distinct (map (message_hash H) (?ke @ ?kn))"
    unfolding one by (rule appended_distinct)
  have compl: "\<forall>e \<in> set existing. passes_filter e \<longrightarrow> message_hash H e \<in> message_hash H ` set ?ke"
    using appended_complete[of _ existing H "{}"] by auto
  have fresh: "\<forall>e \<in> set existing. \<forall>n \<in> set ?kn. passes_filter e \<longrightarrow> message_hash H n \<noteq> message_hash H e"
  proof (intro ballI impI)
    fix e n assume e: "e \<in> set existing" and n: "n \<in> set ?kn" and p: "passes_filter e"
    from compl e p have "message_hash H e \<in> message_hash H ` set ?ke" by blast
    moreover from appended_member[OF n] have "message_hash H n \<notin> message_hash H ` set ?ke" by blast
    ultimately show "message_hash H n \<noteq> message_hash H e" by metis
  qed
  have texts: "\<forall>e \<in> set existing. \<forall>n \<in> set ?kn. message_content n \<noteq> message_content e"
  proof (intro ballI notI)
    fix e n assume e: "e \<in> set existing" and n: "n \<in> set ?kn"
      and eq: "message_content n = message_content e"
    from appended_member[OF n] have "passes_filter n" by simp
    with eq have "passes_filter e" by (simp add: passes_filter_def)
    with fresh e n have "message_hash H n \<noteq> message_hash H e" by blast
    with eq show False by (simp add: message_hash_def)
  qed
  from out dist compl fresh texts appended_subseq[of H "{}" existing]
    appended_subseq[of H "message_hash H ` set ?ke" new]
  show ?thesis by blast
qed

lemma sample_typed:
  "list_all has_text_content sample_store \<and> list_all has_text_content sample_batch
   \<and> list_all has_text_content sample_batch_resourced"
  by (simp add: sample_store_def sample_batch_def sample_batch_resourced_def has_text_content_def dict_get_def)

lemma sample_merge:
  "deduplicate_messages sample_digest sample_store sample_batch = Inr (sample_store @ [hd sample_batch])"
  by code_simp

theorem dedup_unique_existing_first_witness:
  "list_all has_text_content sample_store \<and> list_all has_text_content sample_batch
   \<and> (\<exists>kept_existing kept_new.
           deduplicate_messages sample_digest sample_store sample_batch = Inr (kept_existing @ kept_new)
         \<and> subseq kept_existing sample_store \<and> subseq kept_new sample_batch
         \<and> distinct (map (message_hash sample_digest) (kept_existing @ kept_new))
         \<and> (\<forall>e \<in> set sample_store. passes_filter e \<longrightarrow>
               message_hash sample_digest e \<in> message_hash sample_digest ` set kept_existing)
         \<and> (\<forall>e \<in> set sample_store. \<forall>n \<in> set kept_new. passes_filter e \<longrightarrow>
               message_hash sample_digest n \<noteq> message_hash sample_digest e)
         \<and> (\<forall>e \<in> set sample_store. \<forall>n \<in> set kept_new.
               message_content n \<noteq> message_content e))"
proof -
  have h1: "list_all has_text_content sample_store" and h2: "list_all has_text_content sample_batch"
    using sample_typed by simp_all
  from dedup_unique_existing_first[OF h1 h2, of sample_digest] h1 h2 show ?thesis by blast
qed


lemma appended_has_content:
  assumes "m \<in> set (appended H seen ms)"
  shows "\<exists>c. map_of m ''Content'' = Some (JStr c) \<and> is_legitimate_breach c"
proof -
  from appended_member[OF assms] have p: "passes_filter m" by simp
  then have ne: "message_content m \<noteq> []" by (simp add: passes_filter_def)
  then obtain c where c: "dict_get m ''Content'' (JStr []) = JStr c"
    by (auto simp: message_content_def split: json.splits)
  have "map_of m ''Content'' = Some (JStr c)"
  proof (cases "map_of m ''Content''")
    case None
    with c have "c = []" by (simp add: dict_get_def)
    with c ne show ?thesis by (simp add: message_content_def strip_def)
  next
    case (Some v)
    with c show ?thesis by (simp add: dict_get_def)
  qed
  moreover from p passes_filter_iff[OF c] have "is_legitimate_breach c" by simp
  ultimately show ?thesis by blast
qed

text \<open>
  Claim C6. Every record that the merge returns has a text \<^verbatim>\<open>Content\<close> that the
  classifier accepts; a record of the existing store or of the batch whose \<^verbatim>\<open>Content\<close>
  the classifier rejects is not in the result.
\<close>

theorem dedup_drops_irrelevant:
  assumes "list_all has_text_content existing" and "list_all has_text_content new"
  shows "\<exists>out. deduplicate_messages H existing new = Inr out
         \<and> (\<forall>r \<in> set out. \<exists>c. map_of r ''Content'' = Some (JStr c) \<and> is_legitimate_breach c)
         \<and> (\<forall>r \<in> set existing \<union> set new. \<forall>c.
               dict_get r ''Content'' (JStr []) = JStr c \<and> \<not> is_legitimate_breach c
               \<longrightarrow> r \<notin> set out)"
proof -
  let ?out = "appended H {} (existing @ new)"
  have out: "deduplicate_messages H existing new = Inr ?out"
    using assms by (rule deduplicate_as_one_list)
  have good: "\<forall>r \<in> set ?out. \<exists>c. map_of r ''Content'' = Some (JStr c) \<and> is_legitimate_breach c"
    using appended_has_content by blast
  have bad: "\<forall>r \<in> set existing \<union> set new. \<forall>c.
               dict_get r ''Content'' (JStr []) = JStr c \<and> \<not> is_legitimate_breach c
               \<longrightarrow> r \<notin> set ?out"
  proof (intro ballI allI impI notI)
    fix r c
    assume c: "dict_get r ''Content'' (JStr []) = JStr c \<and> \<not> is_legitimate_breach c"
      and r: "r \<in> set ?out"
    from appended_member[OF r] have "passes_filter r" by simp
    with c passes_filter_iff[of r c] show False by simp
  qed
  from out good bad show ?thesis by blast
qed

lemma sample_prune:
  "deduplicate_messages sample_digest sample_batch sample_store
     = Inr (take 2 sample_batch @ [sample_store ! 1])"
  by code_simp

theorem dedup_drops_irrelevant_witness:
  "list_all has_text_content sample_batch \<and> list_all has_text_content sample_store
   \<and> (\<exists>out. deduplicate_messages sample_digest sample_batch sample_store = Inr out
         \<and> (\<forall>r \<in> set out. \<exists>c. map_of r ''Content'' = Some (JStr c) \<and> is_legitimate_breach c)
         \<and> (\<forall>r \<in> set sample_batch \<union> set sample_store. \<forall>c.
               dict_get r ''Content'' (JStr []) = JStr c \<and> \<not> is_legitimate_breach c
               \<longrightarrow> r \<notin> set out))"
proof -
  have h1: "list_all has_text_content sample_batch" and h2: "list_all has_text_content sample_store"
    using sample_typed by simp_all
  from dedup_drops_irrelevant[OF h1 h2, of sample_digest] h1 h2 show ?thesis by blast
qed

lemma then_merge_typed:
  assumes "list_all has_text_content store" and "list_all has_text_content batch1"
    and "list_all has_text_content batch2"
  shows "then_merge (deduplicate_messages H store batch1) (\<lambda>merged. deduplicate_messages H merged batch2)
         = deduplicate_messages H store (batch1 @ batch2)"
proof -
  define A where "A = appended H {} (store @ batch1)"
  have t1: "list_all has_text_content (store @ batch1)" using assms by simp
  have tA: "list_all has_text_content A" unfolding A_def using t1 by (rule appended_typed)
  have idem: "appended H {} A = A" unfolding A_def by (rule appended_idem)
  have first: "deduplicate_messages H store batch1 = Inr A"
    unfolding A_def using assms(1,2) by (rule deduplicate_as_one_list)
  have "then_merge (deduplicate_messages H store batch1) (\<lambda>merged. deduplicate_messages H merged batch2)
        = deduplicate_messages H A batch2"
    by (simp add: then_merge_def first)
  also have "\<dots> = Inr (appended H {} (A @ batch2))"
    using tA assms(3) by (rule deduplicate_as_one_list)
  also have "appended H {} (A @ batch2) = A @ appended H (message_hash H ` set A) batch2"
    using appended_append[of H "{}" A batch2] by (simp add: idem)
  also have "\<dots> = appended H {} ((store @ batch1) @ batch2)"
    using appended_append[of H "{}" "store @ batch1" batch2] by (simp add: A_def)
  also have "Inr (appended H {} ((store @ batch1) @ batch2)) = deduplicate_messages H store (batch1 @ batch2)"
    using deduplicate_as_one_list[of store "batch1 @ batch2" H] assms by simp
  finally show ?thesis .
qed

lemma then_merge_general:
  "then_merge (deduplicate_messages H store batch1) (\<lambda>merged. deduplicate_messages H merged batch2)
   = deduplicate_messages H store (batch1 @ batch2)"
proof (cases "list_all has_text_content store \<and> list_all has_text_content batch1")
  case True
  show ?thesis
  proof (cases "list_all has_text_content batch2")
    case True
    with \<open>list_all has_text_content store \<and> list_all has_text_content batch1\<close>
    show ?thesis by (simp add: then_merge_typed)
  next
    case False
    let ?A = "appended H {} (store @ batch1)"
    from True have "deduplicate_messages H store batch1 = Inr ?A"
      by (simp add: deduplicate_as_one_list)
    moreover from False have "deduplicate_messages H ?A batch2 = Inl AttributeError"
      by (simp add: deduplicate_raises)
    moreover from False have "deduplicate_messages H store (batch1 @ batch2) = Inl AttributeError"
      by (simp add: deduplicate_raises)
    ultimately show ?thesis by (simp add: then_merge_def)
  qed
next
  case False
  then have "deduplicate_messages H store batch1 = Inl AttributeError"
    by (rule deduplicate_raises)
  moreover from False have "deduplicate_messages H store (batch1 @ batch2) = Inl AttributeError"
    by (intro deduplicate_raises) auto
  ultimately show ?thesis by (simp add: then_merge_def)
qed

text \<open>
  Claim C7. A store whose records all have a text \<^verbatim>\<open>Content\<close>, all pass the filter and
  have pairwise different keys is returned unchanged by a merge with the empty batch; and
  merging one batch and then another gives what merging their concatenation gives.
\<close>

theorem merge_idempotent_and_composes:
  assumes "list_all has_text_content store" and "list_all passes_filter store"
    and "distinct (map (message_hash H) store)"
  shows "deduplicate_messages H store [] = Inr store
         \<and> then_merge (deduplicate_messages H store batch1)
                       (\<lambda>merged. deduplicate_messages H merged batch2)
             = deduplicate_messages H store (batch1 @ batch2)"
proof -
  have "appended H {} store = store"
    using assms(2,3) by (intro appended_stable) simp_all
  with assms(1) have "deduplicate_messages H store [] = Inr store"
    by (simp add: deduplicate_typed)
  then show ?thesis by (simp add: then_merge_general)
qed

lemma sample_store_stable:
  "list_all has_text_content sample_store \<and> list_all passes_filter sample_store
   \<and> distinct (map (message_hash sample_digest) sample_store)"
  by code_simp

lemma sample_two_steps:
  "deduplicate_messages sample_digest sample_store (take 2 sample_batch @ drop 2 sample_batch)
     = Inr (sample_store @ [hd sample_batch])"
  by code_simp

theorem merge_idempotent_and_composes_witness:
  "list_all has_text_content sample_store \<and> list_all passes_filter sample_store
   \<and> distinct (map (message_hash sample_digest) sample_store)
   \<and> deduplicate_messages sample_digest sample_store [] = Inr sample_store
   \<and> then_merge (deduplicate_messages sample_digest sample_store (take 2 sample_batch))
                 (\<lambda>merged. deduplicate_messages sample_digest merged (drop 2 sample_batch))
       = Inr (sample_store @ [hd sample_batch])"
proof -
  have h1: "list_all has_text_content sample_store" and h2: "list_all passes_filter sample_store"
    and h3: "distinct (map (message_hash sample_digest) sample_store)"
    using sample_store_stable by simp_all
  from merge_idempotent_and_composes[OF h1 h2 h3, of "take 2 sample_batch" "drop 2 sample_batch"]
    h1 h2 h3 sample_two_steps
  show ?thesis by simp
qed

lemma same_content_rel:
  "map (\<lambda>m. map_of m ''Content'') ms = map (\<lambda>m. map_of m ''Content'') ms' \<Longrightarrow>
   list_all2 (\<lambda>a b. map_of a ''Content'' = map_of b ''Content'') ms ms'"
proof (induction ms arbitrary: ms')
  case Nil
  then show ?case by simp
next
  case (Cons a ms)
  then show ?case by (cases ms') auto
qed

lemma duplicate_pair:
  assumes "has_text_content a" and "has_text_content b"
    and "message_content a = message_content b"
  shows "deduplicate_messages H [a] [b] = Inr (if passes_filter a then [a] else [])"
proof -
  from assms(3) have "passes_filter b = passes_filter a" "message_hash H b = message_hash H a"
    by (simp_all add: passes_filter_def message_hash_def)
  with assms(1,2) show ?thesis by (simp add: deduplicate_typed)
qed

text \<open>
  Claim C10. Two runs of the merge on inputs that agree, position by position, on the
  \<^verbatim>\<open>Content\<close> entry of every record either both raise or keep the records at the same
  positions of the concatenated input. Two records with the same stripped content are
  duplicates of each other whatever their other fields are: of such a pair only the first
  is kept.
\<close>

theorem dedup_depends_on_content_only:
  assumes "map (\<lambda>m. map_of m ''Content'') existing = map (\<lambda>m. map_of m ''Content'') existing'"
    and "map (\<lambda>m. map_of m ''Content'') new = map (\<lambda>m. map_of m ''Content'') new'"
    and "has_text_content a" and "has_text_content b"
    and "message_content a = message_content b"
  shows "((deduplicate_messages H existing new = Inl AttributeError
            \<and> deduplicate_messages H existing' new' = Inl AttributeError)
          \<or> (\<exists>I. deduplicate_messages H existing new = Inr (nths (existing @ new) I)
                \<and> deduplicate_messages H existing' new' = Inr (nths (existing' @ new') I)))
         \<and> deduplicate_messages H [a] [b] = Inr (if passes_filter a then [a] else [])"
proof -
  have rel: "list_all2 (\<lambda>a b. map_of a ''Content'' = map_of b ''Content'') (existing @ new) (existing' @ new')"
    using assms(1,2) by (intro list_all2_appendI same_content_rel)
  have typed: "list_all has_text_content (existing @ new) = list_all has_text_content (existing' @ new')"
    using rel by (rule same_content_typed)
  have first: "(deduplicate_messages H existing new = Inl AttributeError
            \<and> deduplicate_messages H existing' new' = Inl AttributeError)
          \<or> (\<exists>I. deduplicate_messages H existing new = Inr (nths (existing @ new) I)
                \<and> deduplicate_messages H existing' new' = Inr (nths (existing' @ new') I))"
  proof (cases "list_all has_text_content (existing @ new)")
    case True
    with typed have t': "list_all has_text_content (existing' @ new')" by simp
    from appended_nths[OF rel, of H "{}"] obtain I where
      I: "appended H {} (existing @ new) = nths (existing @ new) I"
         "appended H {} (existing' @ new') = nths (existing' @ new') I" by blast
    from True have "deduplicate_messages H existing new = Inr (appended H {} (existing @ new))"
      by (simp add: deduplicate_as_one_list)
    moreover from t' have "deduplicate_messages H existing' new' = Inr (appended H {} (existing' @ new'))"
      by (simp add: deduplicate_as_one_list)
    ultimately show ?thesis using I by auto
  next
    case False
    with typed have f': "\<not> list_all has_text_content (existing' @ new')" by simp
    from False have "deduplicate_messages H existing new = Inl AttributeError"
      by (intro deduplicate_raises) simp
    moreover from f' have "deduplicate_messages H existing' new' = Inl AttributeError"
      by (intro deduplicate_raises) simp
    ultimately show ?thesis by simp
  qed
  from first duplicate_pair[OF assms(3,4,5)] show ?thesis by simp
qed

lemma sample_resourced_merge:
  "deduplicate_messages sample_digest sample_store sample_batch_resourced
     = Inr (sample_store @ [hd sample_batch_resourced])"
  by code_simp

lemma sample_same_content:
  "map (\<lambda>m. map_of m ''Content'') sample_batch = map (\<lambda>m. map_of m ''Content'') sample_batch_resourced
   \<and> message_content (sample_store ! 0) = message_content (sample_batch ! 1)
   \<and> passes_filter (sample_store ! 0) \<and> sample_store ! 0 \<noteq> sample_batch ! 1"
  by code_simp

theorem dedup_depends_on_content_only_witness:
  "map (\<lambda>m. map_of m ''Content'') sample_store = map (\<lambda>m. map_of m ''Content'') sample_store
   \<and> map (\<lambda>m. map_of m ''Content'') sample_batch = map (\<lambda>m. map_of m ''Content'') sample_batch_resourced
   \<and> has_text_content (sample_store ! 0) \<and> has_text_content (sample_batch ! 1)
   \<and> message_content (sample_store ! 0) = message_content (sample_batch ! 1)
   \<and> (\<exists>I. deduplicate_messages sample_digest sample_store sample_batch
              = Inr (nths (sample_store @ sample_batch) I)
          \<and> deduplicate_messages sample_digest sample_store sample_batch_resourced
              = Inr (nths (sample_store @ sample_batch_resourced) I))
   \<and> deduplicate_messages sample_digest [sample_store ! 0] [sample_batch ! 1] = Inr [sample_store ! 0]"
proof -
  have h2: "map (\<lambda>m. map_of m ''Content'') sample_batch = map (\<lambda>m. map_of m ''Content'') sample_batch_resourced"
    and h5: "message_content (sample_store ! 0) = message_content (sample_batch ! 1)"
    and p: "passes_filter (sample_store ! 0)"
    using sample_same_content by simp_all
  have h3: "has_text_content (sample_store ! 0)" and h4: "has_text_content (sample_batch ! 1)"
    using sample_typed by (simp_all add: sample_store_def sample_batch_def)
  from dedup_depends_on_content_only[OF refl h2 h3 h4 h5, of sample_digest sample_store]
    h2 h3 h4 h5 p sample_merge
  show ?thesis by simp
qed

text \<open>
  Claim C9. \<^verbatim>\<open>save_data\<close> writes the first 10000 records of the list it is given: a longer
  list is cut to exactly 10000 records, a list of at most 10000 records is written as it
  is. The list it is given is the merge result, in which the records kept from the existing
  store come before those kept from the batch, so the cut keeps existing records first.
\<close>

theorem save_data_caps_at_10000:
  assumes "list_all has_text_content existing" and "list_all has_text_content new"
  shows "data_file (save_data backup messages new_count fs)
           = Some (if length messages > 10000 then take 10000 messages else messages)
         \<and> length (if length messages > 10000 then take 10000 messages else messages)
           = (if length messages > 10000 then 10000 else length messages)
         \<and> (\<exists>kept_existing kept_new.
              deduplicate_messages H existing new = Inr (kept_existing @ kept_new)
            \<and> subseq kept_existing existing \<and> subseq kept_new new
            \<and> data_file (save_data backup (kept_existing @ kept_new) new_count fs)
                = Some (take 10000 kept_existing @ take (10000 - length kept_existing) kept_new))"
proof -
  have written: "\<And>ms. data_file (save_data backup ms new_count fs) = Some (take 10000 ms)"
    by (simp add: save_data_def Let_def)
  have a: "data_file (save_data backup messages new_count fs)
           = Some (if length messages > 10000 then take 10000 messages else messages)"
    by (simp add: save_data_def Let_def)
  have b: "length (if length messages > 10000 then take 10000 messages else messages)
           = (if length messages > 10000 then 10000 else length messages)"
    by simp
  let ?ke = "appended H {} existing"
  let ?kn = "appended H (message_hash H ` set ?ke) new"
  have "deduplicate_messages H existing new = Inr (?ke @ ?kn)"
    using assms by (rule deduplicate_typed)
  moreover have "subseq ?ke existing" "subseq ?kn new" by (rule appended_subseq)+
  moreover have "data_file (save_data backup (?ke @ ?kn) new_count fs)
                = Some (take 10000 ?ke @ take (10000 - length ?ke) ?kn)"
    by (simp add: written)
  ultimately show ?thesis using a b by blast
qed

theorem save_data_caps_at_10000_witness:
  "list_all has_text_content sample_store \<and> list_all has_text_content sample_batch
   \<and> data_file (save_data True (replicate 10001 (hd sample_store)) 1 \<lparr>data_file = None, backup_file = None\<rparr>)
       = Some (replicate 10000 (hd sample_store))
   \<and> (\<exists>kept_existing kept_new.
              deduplicate_messages sample_digest sample_store sample_batch = Inr (kept_existing @ kept_new)
            \<and> subseq kept_existing sample_store \<and> subseq kept_new sample_batch
            \<and> data_file (save_data True (kept_existing @ kept_new) 1 \<lparr>data_file = None, backup_file = None\<rparr>)
                = Some (take 10000 kept_existing @ take (10000 - length kept_existing) kept_new))"
proof -
  have h1: "list_all has_text_content sample_store" and h2: "list_all has_text_content sample_batch"
    using sample_typed by simp_all
  from save_data_caps_at_10000[OF h1 h2, of True "replicate 10001 (hd sample_store)" 1
      "\<lparr>data_file = None, backup_file = None\<rparr>" sample_digest] h1 h2
  show ?thesis by simp
qed

section \<open>Properties of cleaning and decoding\<close>

lemma dict_set_nonempty: "dict_set p k w \<noteq> []"
  by (cases p) (auto split: if_splits)

lemma scan_object_shape: "scan_object n s pairs = Decoded v r \<Longrightarrow> \<exists>d. v = JObj d \<and> d \<noteq> []"
proof (induction n arbitrary: s pairs)
  case 0
  then show ?case by simp
next
  case (Suc n)
  from Suc.prems obtain key r1 where k: "scan_string s = Some (key, r1)"
    by (cases "scan_string s") auto
  from Suc.prems k obtain ds where d: "skip_ws r1 = CHR '':'' # ds"
    by (cases "skip_ws r1") (auto split: if_splits)
  from Suc.prems k d obtain w r2 where w: "scan_once n (skip_ws ds) = Decoded w r2"
    by (cases "scan_once n (skip_ws ds)") auto
  from Suc.prems k d w obtain e es where e: "skip_ws r2 = e # es"
    by (cases "skip_ws r2") auto
  show ?case
  proof (cases "e = CHR ''}''")
    case True
    with Suc.prems k d w e show ?thesis by (auto simp: dict_set_nonempty)
  next
    case False
    with Suc.prems k d w e have comma: "e = CHR '',''" by (simp split: if_splits)
    with Suc.prems k d w e obtain qs where q: "skip_ws es = CHR 0x22 # qs"
      by (cases "skip_ws es") (auto split: if_splits)
    with Suc.prems k d w e comma have "scan_object n qs (dict_set pairs key w) = Decoded v r"
      by simp
    then show ?thesis by (rule Suc.IH)
  qed
qed


lemma strip_subset: "set (strip s) \<subseteq> set s"
  by (auto simp: strip_def dest!: set_dropWhileD)

lemma clean_text_no_quote: "CHR 0x22 \<notin> set (clean_text x)"
proof (cases x)
  case (JStr t)
  define F where "F = filter (\<lambda>c. c \<notin> set dangerous_chars)
     (replace (replace (foldl (\<lambda>acc watermark. replace acc watermark []) t watermarks)
             [CHR 0x5C, CHR ''n''] '' '') [CHR 0x5C, CHR 0x22] [CHR 0x22])"
  have eq: "clean_text x = strip F"
    using JStr by (simp add: clean_text_def Let_def F_def)
  have "set (strip F) \<subseteq> set F" by (rule strip_subset)
  moreover have "CHR 0x22 \<notin> set F"
    by (simp add: F_def dangerous_chars_def)
  ultimately show ?thesis unfolding eq by blast
qed (simp_all add: clean_text_def)

lemma skip_ws_subset: "set (skip_ws s) \<subseteq> set s"
  by (auto simp: skip_ws_def dest: set_dropWhileD)

lemma scan_array_shape: "scan_array n s acc = Decoded v r \<Longrightarrow> \<exists>xs. v = JArr xs"
proof (induction n arbitrary: s acc)
  case 0
  then show ?case by simp
next
  case (Suc n)
  from Suc.prems obtain w r1 where w: "scan_once n s = Decoded w r1"
    by (cases "scan_once n s") auto
  from Suc.prems w obtain d ds where d: "skip_ws r1 = d # ds"
    by (cases "skip_ws r1") auto
  show ?case
  proof (cases "d = CHR '']''")
    case True
    with Suc.prems w d show ?thesis by auto
  next
    case False
    with Suc.prems w d have "scan_array n (skip_ws ds) (acc @ [w]) = Decoded v r"
      by (simp split: if_splits)
    then show ?thesis by (rule Suc.IH)
  qed
qed

lemma scan_number_shape: "scan_number s = Some (v, r) \<Longrightarrow> \<exists>n. v = JNum n"
  by (auto simp: scan_number_def split: option.splits prod.splits)

text \<open>What \<^const>\<open>scan_once\<close> does on a text that does not begin with a quote, brace or bracket.\<close>

lemma scan_once_literal:
  assumes "c \<noteq> CHR 0x22" and "c \<noteq> CHR ''{''" and "c \<noteq> CHR ''[''"
    and "scan_once (Suc n) (c # cs) = Decoded v r"
  shows "v = JNull \<or> (\<exists>b. v = JBool b) \<or> (\<exists>x. v = JNum x)"
proof -
  let ?s = "c # cs"
  have unfold: "scan_once (Suc n) ?s =
          (if startswith ?s ''null'' then Decoded JNull (drop 4 ?s)
          else if startswith ?s ''true'' then Decoded (JBool True) (drop 4 ?s)
          else if startswith ?s ''false'' then Decoded (JBool False) (drop 5 ?s)
          else
            (case scan_number ?s of
               Some (v, r) \<Rightarrow> Decoded v r
             | None \<Rightarrow>
                 if startswith ?s ''NaN'' then Decoded (JNum ''NaN'') (drop 3 ?s)
                 else if startswith ?s ''Infinity'' then Decoded (JNum ''Infinity'') (drop 8 ?s)
                 else if startswith ?s ''-Infinity'' then Decoded (JNum ''-Infinity'') (drop 9 ?s)
                 else Invalid))"
    using assms(1,2,3) by (simp del: startswith.simps)
  show ?thesis
  proof (cases "startswith ?s ''null'' \<or> startswith ?s ''true'' \<or> startswith ?s ''false''")
    case True
    with assms(4) show ?thesis unfolding unfold by (auto split: if_splits)
  next
    case False
    show ?thesis
    proof (cases "scan_number ?s")
      case None
      with False assms(4) show ?thesis unfolding unfold by (auto split: if_splits)
    next
      case (Some p)
      obtain w r1 where p: "p = (w, r1)" by (cases p)
      with Some scan_number_shape[of ?s w r1] obtain x where "w = JNum x" by auto
      with False Some p assms(4) show ?thesis unfolding unfold by auto
    qed
  qed
qed

lemma scan_once_quote_free:
  assumes "CHR 0x22 \<notin> set s" and "scan_once (Suc n) s = Decoded v r"
  shows "(\<forall>t. v \<noteq> JStr t) \<and>
         (\<forall>d. v = JObj d \<longrightarrow> d = [] \<and> (\<exists>cs. s = CHR ''{'' # cs \<and> skip_ws cs = CHR ''}'' # r))"
proof (cases s)
  case Nil
  with assms show ?thesis by simp
next
  case (Cons c cs)
  with assms(1) have c: "c \<noteq> CHR 0x22" and cs: "CHR 0x22 \<notin> set cs" by auto
  show ?thesis
  proof (cases "c = CHR ''{''")
    case True
    show ?thesis
    proof (cases "skip_ws cs")
      case Nil
      with assms(2) Cons True show ?thesis by simp
    next
      case (Cons d ds)
      with skip_ws_subset[of cs] cs have d: "d \<noteq> CHR 0x22" by auto
      show ?thesis
      proof (cases "d = CHR ''}''")
        case dclose: True
        with assms(2) \<open>s = c # cs\<close> True Cons show ?thesis by auto
      next
        case False
        with assms(2) \<open>s = c # cs\<close> True Cons d show ?thesis by simp
      qed
    qed
  next
    case notbrace: False
    show ?thesis
    proof (cases "c = CHR ''[''")
      case True
      show ?thesis
      proof (cases "skip_ws cs")
        case Nil
        with assms(2) Cons True show ?thesis by simp
      next
        case (Cons d ds)
        show ?thesis
        proof (cases "d = CHR '']''")
          case dclose: True
          with assms(2) \<open>s = c # cs\<close> True Cons show ?thesis by auto
        next
          case False
          with assms(2) \<open>s = c # cs\<close> True Cons
          have "scan_array n (d # ds) [] = Decoded v r" by simp
          from scan_array_shape[OF this] show ?thesis by auto
        qed
      qed
    next
      case False
      from assms(2) Cons have "scan_once (Suc n) (c # cs) = Decoded v r" by simp
      from scan_once_literal[OF c notbrace False this] show ?thesis by auto
    qed
  qed
qed

lemma json_loads_quote_free:
  assumes "CHR 0x22 \<notin> set s" and "json_loads s = Some v"
  shows "(\<forall>t. v \<noteq> JStr t) \<and> (\<forall>d. v = JObj d \<longrightarrow> d = [] \<and> set s \<subseteq> set brace_chars)"
proof -
  from assms(2) obtain r where
    sc: "scan_once (Suc (Suc (2 * length s))) (skip_ws s) = Decoded v r" and r: "skip_ws r = []"
    by (auto simp: json_loads_def simp del: scan_once.simps split: scan.splits if_splits)
  from assms(1) skip_ws_subset[of s] have q: "CHR 0x22 \<notin> set (skip_ws s)" by auto
  note top = scan_once_quote_free[OF q sc]
  have "set s \<subseteq> set brace_chars" if "v = JObj d" for d
  proof -
    from top that obtain cs where cs: "skip_ws s = CHR ''{'' # cs" "skip_ws cs = CHR ''}'' # r"
      by blast
    have ws: "\<And>x. json_ws x \<Longrightarrow> x \<in> set brace_chars"
      by (auto simp: json_ws_def brace_chars_def)
    have s: "s = takeWhile json_ws s @ CHR ''{'' # takeWhile json_ws cs @ CHR ''}'' # r"
      using cs takeWhile_dropWhile_id[of json_ws s] takeWhile_dropWhile_id[of json_ws cs]
      by (simp add: skip_ws_def)
    have rws: "\<forall>x \<in> set r. json_ws x"
      using r by (simp add: skip_ws_def dropWhile_eq_Nil_conv)
    have "set s \<subseteq> set (takeWhile json_ws s) \<union> {CHR ''{''} \<union> set (takeWhile json_ws cs) \<union> {CHR ''}''} \<union> set r"
      by (subst s) auto
    moreover have "\<forall>x \<in> set (takeWhile json_ws s). json_ws x" "\<forall>x \<in> set (takeWhile json_ws cs). json_ws x"
      by (auto dest: set_takeWhileD)
    moreover have "CHR ''{'' \<in> set brace_chars" "CHR ''}'' \<in> set brace_chars"
      by (simp_all add: brace_chars_def)
    ultimately show ?thesis using rws ws by blast
  qed
  with top show ?thesis by blast
qed

lemma scan_once_Nil: "scan_once (Suc n) [] = Invalid"
  by (simp only: scan_once.simps list.case)

lemma json_loads_empty: "json_loads [] = None"
  by (simp only: json_loads_def skip_ws_def dropWhile.simps scan_once_Nil scan.case)

lemma plain_from_empty_object:
  "length clean \<le> MAX_CONTENT_LENGTH \<Longrightarrow> map cap_item (fill_defaults [] clean) = plain_record clean"
  by (simp add: fill_defaults_def cap_item_def plain_record_def MAX_SOURCE_LENGTH_def)

lemma parse_attempts_quote_free:
  assumes "CHR 0x22 \<notin> set clean" and "length clean \<le> MAX_CONTENT_LENGTH"
    and "parse_attempts (Suc n) clean = Some (JObj d)"
  shows "d = plain_record clean"
proof (cases "json_loads clean")
  case None
  with assms(3) show ?thesis by simp
next
  case (Some v)
  note qf = json_loads_quote_free[OF assms(1) Some]
  show ?thesis
  proof (cases v)
    case (JObj p)
    with qf have "p = []" by simp
    with Some JObj assms(2,3) show ?thesis by (simp add: plain_from_empty_object)
  next
    case (JStr t)
    with qf show ?thesis by simp
  qed (use Some assms(3) in simp_all)
qed

lemma truncate_take:
  "(if length c > MAX_CONTENT_LENGTH then take MAX_CONTENT_LENGTH c else c) = take MAX_CONTENT_LENGTH c"
  by simp

lemma parse_message_content_text:
  "parse_message_content (JStr t)
     = parse_attempts (Suc (Suc 0)) (take MAX_CONTENT_LENGTH (clean_text (JStr t)))"
  by (simp only: parse_message_content_def json.case Let_def truncate_take)

lemma parse_json_message_text:
  "parse_json_message (JStr t)
     = parse_json_attempts (Suc (Suc 0)) (take MAX_CONTENT_LENGTH (clean_text (JStr t)))"
  by (simp only: parse_json_message_def json.case Let_def truncate_take)

lemma truncated_quote_free:
  "CHR 0x22 \<notin> set (take MAX_CONTENT_LENGTH (clean_text x))"
  using clean_text_no_quote[of x] by (auto dest: in_set_takeD)

lemma parse_message_content_record:
  assumes "parse_message_content message_text = Some (JObj record)"
  shows "record = plain_record (take MAX_CONTENT_LENGTH (clean_text message_text))"
proof (cases message_text)
  case (JStr t)
  with assms have
    "parse_attempts (Suc (Suc 0)) (take MAX_CONTENT_LENGTH (clean_text message_text)) = Some (JObj record)"
    by (simp only: parse_message_content_text)
  with truncated_quote_free[of message_text] show ?thesis
    by (intro parse_attempts_quote_free[of _ "Suc 0"]) simp_all
qed (use assms in \<open>simp_all add: parse_message_content_def\<close>)

lemma contains_subset: "contains s k \<Longrightarrow> set k \<subseteq> set s"
  by (auto simp: contains_iff)

lemma lower_brace_chars: "set s \<subseteq> set brace_chars \<Longrightarrow> set (lower s) \<subseteq> set brace_chars"
proof
  fix x
  assume s: "set s \<subseteq> set brace_chars" and "x \<in> set (lower s)"
  then obtain c where c: "c \<in> set s" "x = lower_char c" by (auto simp: lower_def)
  have "list_all (\<lambda>c. lower_char c = c) brace_chars"
    by (simp add: brace_chars_def lower_char_def upper_letters_def lower_letters_def)
  with s c(1) have "lower_char c = c" unfolding list_all_iff by blast
  with s c show "x \<in> set brace_chars" by auto
qed

lemma score_zero_on_braces:
  assumes "set s \<subseteq> set brace_chars" and "list_all (\<lambda>k. k \<noteq> [] \<and> hd k \<notin> set brace_chars) L"
  shows "indicator_score L (lower s) = 0"
proof -
  have "\<not> contains (lower s) k" if "k \<in> set L" for k
  proof
    assume "contains (lower s) k"
    then have "set k \<subseteq> set (lower s)" by (rule contains_subset)
    with lower_brace_chars[OF assms(1)] have "set k \<subseteq> set brace_chars" by blast
    moreover from that assms(2) have "k \<noteq> []" "hd k \<notin> set brace_chars"
      by (auto simp: list_all_iff)
    ultimately show False by (cases k) auto
  qed
  then show ?thesis by (simp add: indicator_score_def)
qed

lemma not_relevant_on_braces: "set s \<subseteq> set brace_chars \<Longrightarrow> \<not> is_relevant_breach s"
proof -
  assume s: "set s \<subseteq> set brace_chars"
  have "list_all (\<lambda>k. k \<noteq> [] \<and> hd k \<notin> set brace_chars) BREACH_INDICATORS_full"
    by (simp add: BREACH_INDICATORS_full_def brace_chars_def)
  with s have "indicator_score BREACH_INDICATORS_full (lower s) = 0"
    by (rule score_zero_on_braces)
  then show ?thesis by (simp add: is_relevant_breach_def Let_def)
qed

lemma parse_json_attempts_quote_free:
  assumes "CHR 0x22 \<notin> set clean" and "length clean \<le> MAX_CONTENT_LENGTH"
  shows "parse_json_attempts (Suc n) clean = None"
proof (cases "json_loads clean")
  case None
  then show ?thesis by simp
next
  case (Some v)
  note qf = json_loads_quote_free[OF assms(1) Some]
  show ?thesis
  proof (cases v)
    case (JObj p)
    with qf have p: "p = []" and b: "set clean \<subseteq> set brace_chars" by simp_all
    have "map cap_item_full (fill_defaults [] clean)
          = [(''Content'', JStr clean), (''Source'', JStr ''Unknown''), (''Type'', JStr ''Data leak'')]"
      using assms(2)
      by (simp add: fill_defaults_def cap_item_full_def MAX_SOURCE_LENGTH_def ALLOWED_BREACH_TYPES_def)
    with Some JObj p not_relevant_on_braces[OF b] show ?thesis
      by (simp add: dict_get_def)
  next
    case (JStr t)
    with qf show ?thesis by simp
  qed (use Some in simp_all)
qed

lemma parse_json_message_none: "parse_json_message message_text = None"
proof (cases message_text)
  case (JStr t)
  have "parse_json_attempts (Suc (Suc 0)) (take MAX_CONTENT_LENGTH (clean_text message_text)) = None"
    using truncated_quote_free[of message_text]
    by (intro parse_json_attempts_quote_free) simp_all
  with JStr show ?thesis by (simp only: parse_json_message_text)
qed (simp_all add: parse_json_message_def)

section \<open>The decoder's budget\<close>

text \<open>
  Every scanner returns a rest that is shorter than its input, so a budget of more than
  twice the length of the text is never used up: the result \<open>Exhausted\<close> does not occur
  in \<^const>\<open>json_loads\<close>.
\<close>

lemma scan_string_shorter: "scan_string s = Some (t, r) \<Longrightarrow> length r < length s"
proof (induction s arbitrary: t r rule: scan_string.induct)
  case 1
  then show ?case by simp
next
  case (2 c cs)
  show ?case
  proof (cases "c = CHR 0x22")
    case True
    with "2.prems" show ?thesis by simp
  next
    case notq: False
    show ?thesis
    proof (cases "c = CHR 0x5C")
      case True
      from "2.prems" notq True obtain e rest where cs: "cs = e # rest"
        by (cases cs) auto
      show ?thesis
      proof (cases "e = CHR ''u''")
        case eu: True
        from "2.prems" notq True cs eu obtain ch where ch: "decode_uXXXX (take 4 rest) = Some ch"
          by (cases "decode_uXXXX (take 4 rest)") auto
        from "2.prems" notq True cs eu ch obtain t1 where
          t1: "scan_string (drop 4 rest) = Some (t1, r)"
          by (cases "scan_string (drop 4 rest)") auto
        from "2.IH"(1)[OF notq True cs eu ch t1] have "length r < length (drop 4 rest)" .
        with cs show ?thesis by simp
      next
        case False
        from "2.prems" notq True cs False obtain ch where ch: "map_of BACKSLASH e = Some ch"
          by (cases "map_of BACKSLASH e") auto
        from "2.prems" notq True cs False ch obtain t1 where
          t1: "scan_string rest = Some (t1, r)"
          by (cases "scan_string rest") auto
        from "2.IH"(2)[OF notq True cs False ch t1] have "length r < length rest" .
        with cs show ?thesis by simp
      qed
    next
      case False
      with "2.prems" notq have ctl: "\<not> (of_char c :: nat) < 32"
        by (auto split: if_splits)
      with "2.prems" notq False obtain t1 where t1: "scan_string cs = Some (t1, r)"
        by (cases "scan_string cs") auto
      from "2.IH"(3)[OF notq False ctl t1] show ?thesis by simp
    qed
  qed
qed

lemma scan_natural_shorter: "scan_natural s = Some (d, r) \<Longrightarrow> length r < length s"
  by (cases s) (auto simp: scan_natural_def less_Suc_eq_le length_dropWhile_le split: if_splits)

lemma scan_integer_shorter: "scan_integer s = Some (d, r) \<Longrightarrow> length r < length s"
proof (cases s)
  case Nil
  assume "scan_integer s = Some (d, r)"
  with Nil show ?thesis by (simp add: scan_integer_def)
next
  case (Cons c cs)
  assume a: "scan_integer s = Some (d, r)"
  show ?thesis
  proof (cases "c = CHR ''-''")
    case True
    with a Cons obtain ds where "scan_natural cs = Some (ds, r)"
      by (cases "scan_natural cs") (auto simp: scan_integer_def)
    from scan_natural_shorter[OF this] Cons show ?thesis by simp
  next
    case False
    with a Cons have "scan_natural s = Some (d, r)" by (simp add: scan_integer_def)
    then show ?thesis by (rule scan_natural_shorter)
  qed
qed

lemma scan_fraction_le: "scan_fraction s = (f, r) \<Longrightarrow> length r \<le> length s"
  by (cases s) (auto simp: scan_fraction_def le_SucI length_dropWhile_le split: if_splits)

lemma scan_exponent_le: "scan_exponent s = (e, r) \<Longrightarrow> length r \<le> length s"
proof (cases s)
  case Nil
  assume "scan_exponent s = (e, r)"
  with Nil show ?thesis by (simp add: scan_exponent_def)
next
  case (Cons c cs)
  assume a: "scan_exponent s = (e, r)"
  have "length (dropWhile isdigit (drop k cs)) \<le> length cs" for k
    using length_dropWhile_le[of isdigit "drop k cs"] by simp
  with a Cons show ?thesis
    by (auto simp: scan_exponent_def Let_def le_SucI split: if_splits)
qed

lemma scan_number_shorter: "scan_number s = Some (v, r) \<Longrightarrow> length r < length s"
proof -
  assume a: "scan_number s = Some (v, r)"
  then obtain i r0 where i: "scan_integer s = Some (i, r0)"
    by (cases "scan_integer s") (auto simp: scan_number_def)
  obtain f r1 where f: "scan_fraction r0 = (f, r1)" by (cases "scan_fraction r0")
  obtain e r2 where e: "scan_exponent r1 = (e, r2)" by (cases "scan_exponent r1")
  from a i f e have "r = r2" by (simp add: scan_number_def)
  with scan_integer_shorter[OF i] scan_fraction_le[OF f] scan_exponent_le[OF e]
  show ?thesis by simp
qed

lemma skip_ws_le: "length (skip_ws s) \<le> length s"
  by (simp add: skip_ws_def length_dropWhile_le)

lemma skip_ws_Cons_less: "skip_ws s = d # ds \<Longrightarrow> length ds < length s"
  using skip_ws_le[of s] by simp


lemma scan_once_plain_eq:
  assumes "c \<noteq> CHR 0x22" and "c \<noteq> CHR ''{''" and "c \<noteq> CHR ''[''"
  shows "scan_once (Suc n) (c # cs) =
          (if startswith (c # cs) ''null'' then Decoded JNull (drop 4 (c # cs))
          else if startswith (c # cs) ''true'' then Decoded (JBool True) (drop 4 (c # cs))
          else if startswith (c # cs) ''false'' then Decoded (JBool False) (drop 5 (c # cs))
          else
            (case scan_number (c # cs) of
               Some (v, r) \<Rightarrow> Decoded v r
             | None \<Rightarrow>
                 if startswith (c # cs) ''NaN'' then Decoded (JNum ''NaN'') (drop 3 (c # cs))
                 else if startswith (c # cs) ''Infinity'' then Decoded (JNum ''Infinity'') (drop 8 (c # cs))
                 else if startswith (c # cs) ''-Infinity'' then Decoded (JNum ''-Infinity'') (drop 9 (c # cs))
                 else Invalid))"
  using assms by (simp only: scan_once.simps list.case if_False)

lemma scan_once_plain_budget:
  assumes "c \<noteq> CHR 0x22" and "c \<noteq> CHR ''{''" and "c \<noteq> CHR ''[''"
  shows "scan_once (Suc n) (c # cs) \<noteq> Exhausted
         \<and> (\<forall>v r. scan_once (Suc n) (c # cs) = Decoded v r \<longrightarrow> length r < length (c # cs))"
proof (cases "scan_number (c # cs)")
  case None
  then show ?thesis
    unfolding scan_once_plain_eq[OF assms] by (simp del: startswith.simps add: less_Suc_eq_le)
next
  case (Some p)
  obtain w r1 where p: "p = (w, r1)" by (cases p)
  with Some have "length r1 < length (c # cs)" by (auto dest: scan_number_shorter)
  with Some p show ?thesis
    unfolding scan_once_plain_eq[OF assms] by (simp del: startswith.simps add: less_Suc_eq_le)
qed

lemma scan_once_step:
  assumes IHa: "\<And>s acc. 2 * length s + 1 < n \<Longrightarrow> scan_array n s acc \<noteq> Exhausted
                  \<and> (\<forall>v r. scan_array n s acc = Decoded v r \<longrightarrow> length r < length s)"
    and IHo: "\<And>s pairs. 2 * length s + 1 < n \<Longrightarrow> scan_object n s pairs \<noteq> Exhausted
                  \<and> (\<forall>v r. scan_object n s pairs = Decoded v r \<longrightarrow> length r < length s)"
    and n: "2 * length s < Suc n"
  shows "scan_once (Suc n) s \<noteq> Exhausted
         \<and> (\<forall>v r. scan_once (Suc n) s = Decoded v r \<longrightarrow> length r < length s)"
proof (cases s)
  case Nil
  then show ?thesis by (simp add: scan_once_Nil)
next
  case (Cons c cs)
  show ?thesis
  proof (cases "c = CHR 0x22")
    case True
    show ?thesis
    proof (cases "scan_string cs")
      case None
      with Cons True show ?thesis by simp
    next
      case (Some p)
      obtain t r1 where p: "p = (t, r1)" by (cases p)
      with Some have "length r1 < length cs" by (auto dest: scan_string_shorter)
      with Cons True Some p show ?thesis by simp
    qed
  next
    case notq: False
    show ?thesis
    proof (cases "c = CHR ''{''")
      case True
      show ?thesis
      proof (cases "skip_ws cs")
        case Nil
        with Cons True show ?thesis by simp
      next
        case ws: (Cons d ds)
        then have len: "length ds < length cs" by (rule skip_ws_Cons_less)
        show ?thesis
        proof (cases "d = CHR ''}''")
          case dclose: True
          with Cons True ws len show ?thesis by simp
        next
          case False
          show ?thesis
          proof (cases "d = CHR 0x22")
            case dq: True
            from len n Cons have "2 * length ds + 1 < n" by simp
            from IHo[OF this, of "[]"] Cons True ws False dq len show ?thesis by auto
          next
            case nodq: False
            with Cons True ws False show ?thesis by simp
          qed
        qed
      qed
    next
      case notb: False
      show ?thesis
      proof (cases "c = CHR ''[''")
        case True
        show ?thesis
        proof (cases "skip_ws cs")
          case Nil
          with Cons True show ?thesis by simp
        next
          case ws: (Cons d ds)
          then have len: "length ds < length cs" by (rule skip_ws_Cons_less)
          show ?thesis
          proof (cases "d = CHR '']''")
            case dclose: True
            with Cons True ws len show ?thesis by simp
          next
            case False
            from len n Cons have "2 * length (d # ds) + 1 < n" by simp
            from IHa[OF this, of "[]"] Cons True ws False len show ?thesis by auto
          qed
        qed
      next
        case False
        from scan_once_plain_budget[OF notq notb False, of n cs] Cons show ?thesis by simp
      qed
    qed
  qed
qed

lemma scan_array_step:
  assumes IH1: "\<And>s. 2 * length s < n \<Longrightarrow> scan_once n s \<noteq> Exhausted
                  \<and> (\<forall>v r. scan_once n s = Decoded v r \<longrightarrow> length r < length s)"
    and IHa: "\<And>s acc. 2 * length s + 1 < n \<Longrightarrow> scan_array n s acc \<noteq> Exhausted
                  \<and> (\<forall>v r. scan_array n s acc = Decoded v r \<longrightarrow> length r < length s)"
    and n: "2 * length s + 1 < Suc n"
  shows "scan_array (Suc n) s acc \<noteq> Exhausted
         \<and> (\<forall>v r. scan_array (Suc n) s acc = Decoded v r \<longrightarrow> length r < length s)"
proof -
  from n have "2 * length s < n" by simp
  note first = IH1[OF this]
  show ?thesis
  proof (cases "scan_once n s")
    case (Decoded w r1)
    with first have r1: "length r1 < length s" by simp
    show ?thesis
    proof (cases "skip_ws r1")
      case Nil
      with Decoded show ?thesis by simp
    next
      case (Cons d ds)
      then have len: "length ds < length r1" by (rule skip_ws_Cons_less)
      show ?thesis
      proof (cases "d = CHR '']''")
        case True
        with Decoded Cons len r1 show ?thesis by simp
      next
        case False
        show ?thesis
        proof (cases "d = CHR '',''")
          case True
          have "length (skip_ws ds) \<le> length ds" by (rule skip_ws_le)
          with len r1 n have "2 * length (skip_ws ds) + 1 < n" and "length (skip_ws ds) < length s"
            by simp_all
          with IHa[of "skip_ws ds" "acc @ [w]"] Decoded Cons False True show ?thesis by auto
        next
          case nocomma: False
          with Decoded Cons False show ?thesis by simp
        qed
      qed
    qed
  next
    case Invalid
    then show ?thesis by simp
  next
    case Exhausted
    with first show ?thesis by simp
  qed
qed

lemma scan_object_step:
  assumes IH1: "\<And>s. 2 * length s < n \<Longrightarrow> scan_once n s \<noteq> Exhausted
                  \<and> (\<forall>v r. scan_once n s = Decoded v r \<longrightarrow> length r < length s)"
    and IHo: "\<And>s pairs. 2 * length s + 1 < n \<Longrightarrow> scan_object n s pairs \<noteq> Exhausted
                  \<and> (\<forall>v r. scan_object n s pairs = Decoded v r \<longrightarrow> length r < length s)"
    and n: "2 * length s + 1 < Suc n"
  shows "scan_object (Suc n) s pairs \<noteq> Exhausted
         \<and> (\<forall>v r. scan_object (Suc n) s pairs = Decoded v r \<longrightarrow> length r < length s)"
proof (cases "scan_string s")
  case None
  then show ?thesis by simp
next
  case (Some p)
  obtain key r1 where p: "p = (key, r1)" by (cases p)
  with Some have k: "scan_string s = Some (key, r1)" by simp
  then have r1: "length r1 < length s" by (rule scan_string_shorter)
  show ?thesis
  proof (cases "skip_ws r1")
    case Nil
    with k show ?thesis by simp
  next
    case (Cons d ds)
    then have ds: "length ds < length r1" by (rule skip_ws_Cons_less)
    show ?thesis
    proof (cases "d = CHR '':''")
      case False
      with k Cons show ?thesis by simp
    next
      case True
      have le: "length (skip_ws ds) \<le> length ds" by (rule skip_ws_le)
      with ds r1 n have "2 * length (skip_ws ds) < n" by simp
      note first = IH1[OF this]
      show ?thesis
      proof (cases "scan_once n (skip_ws ds)")
        case (Decoded w r2)
        with first have r2: "length r2 < length (skip_ws ds)" by simp
        show ?thesis
        proof (cases "skip_ws r2")
          case Nil
          with k \<open>skip_ws r1 = d # ds\<close> True Decoded show ?thesis by simp
        next
          case es: (Cons e es)
          then have leses: "length es < length r2" by (rule skip_ws_Cons_less)
          show ?thesis
          proof (cases "e = CHR ''}''")
            case eclose: True
            with k \<open>skip_ws r1 = d # ds\<close> True Decoded es leses r2 le ds r1 show ?thesis by simp
          next
            case False
            show ?thesis
            proof (cases "e = CHR '',''")
              case nocomma: False
              with k \<open>skip_ws r1 = d # ds\<close> True Decoded es False show ?thesis by simp
            next
              case comma: True
              show ?thesis
              proof (cases "skip_ws es")
                case Nil
                with k \<open>skip_ws r1 = d # ds\<close> True Decoded es False comma show ?thesis by simp
              next
                case qs: (Cons q qs)
                then have lqs: "length qs < length es" by (rule skip_ws_Cons_less)
                show ?thesis
                proof (cases "q = CHR 0x22")
                  case noq: False
                  with k \<open>skip_ws r1 = d # ds\<close> True Decoded es False comma qs show ?thesis by simp
                next
                  case True
                  from lqs leses r2 le ds r1 n have "2 * length qs + 1 < n" and "length qs < length s"
                    by simp_all
                  with IHo[of qs "dict_set pairs key w"] k \<open>skip_ws r1 = d # ds\<close> \<open>d = CHR '':''\<close>
                    Decoded es False comma qs True
                  show ?thesis by auto
                qed
              qed
            qed
          qed
        qed
      next
        case Invalid
        with k Cons True show ?thesis by simp
      next
        case Exhausted
        with first show ?thesis by simp
      qed
    qed
  qed
qed

lemma scan_budget:
  "(\<forall>s. 2 * length s < n \<longrightarrow> scan_once n s \<noteq> Exhausted
         \<and> (\<forall>v r. scan_once n s = Decoded v r \<longrightarrow> length r < length s))
   \<and> (\<forall>s acc. 2 * length s + 1 < n \<longrightarrow> scan_array n s acc \<noteq> Exhausted
         \<and> (\<forall>v r. scan_array n s acc = Decoded v r \<longrightarrow> length r < length s))
   \<and> (\<forall>s pairs. 2 * length s + 1 < n \<longrightarrow> scan_object n s pairs \<noteq> Exhausted
         \<and> (\<forall>v r. scan_object n s pairs = Decoded v r \<longrightarrow> length r < length s))"
proof (induction n)
  case 0
  then show ?case by simp
next
  case (Suc n)
  from Suc have IH1: "\<And>s. 2 * length s < n \<Longrightarrow> scan_once n s \<noteq> Exhausted
                  \<and> (\<forall>v r. scan_once n s = Decoded v r \<longrightarrow> length r < length s)"
    and IHa: "\<And>s acc. 2 * length s + 1 < n \<Longrightarrow> scan_array n s acc \<noteq> Exhausted
                  \<and> (\<forall>v r. scan_array n s acc = Decoded v r \<longrightarrow> length r < length s)"
    and IHo: "\<And>s pairs. 2 * length s + 1 < n \<Longrightarrow> scan_object n s pairs \<noteq> Exhausted
                  \<and> (\<forall>v r. scan_object n s pairs = Decoded v r \<longrightarrow> length r < length s)"
    by blast+
  show ?case
    using scan_once_step[OF IHa IHo] scan_array_step[OF IH1 IHa] scan_object_step[OF IH1 IHo]
    by blast
qed

text \<open>The budget that \<^const>\<open>json_loads\<close> starts with is never used up.\<close>

lemma json_loads_budget:
  "scan_once (Suc (Suc (2 * length s))) (skip_ws s) \<noteq> Exhausted"
proof -
  have "2 * length (skip_ws s) < Suc (Suc (2 * length s))"
    using skip_ws_le[of s] by simp
  with scan_budget[of "Suc (Suc (2 * length s))"] show ?thesis by blast
qed

section \<open>Properties of the parsers\<close>

lemma plain_record_type: "map_of (plain_record c) ''Type'' = Some (JStr ''Data leak'') \<and> has_allowed_type (plain_record c)"
  by (simp add: plain_record_def has_allowed_type_def ALLOWED_BREACH_TYPES_def)

lemma deduplicate_keeps_property:
  assumes "list_all has_text_content existing" and "list_all has_text_content new"
    and "list_all P existing" and "list_all P new"
  shows "\<exists>out. deduplicate_messages H existing new = Inr out \<and> list_all P out"
proof -
  have "list_all P (appended H {} (existing @ new))"
    using assms(3,4) appended_member[of _ H "{}" "existing @ new"]
    by (auto simp: list_all_iff)
  with deduplicate_as_one_list[OF assms(1,2), of H] show ?thesis by blast
qed

text \<open>
  What the parsers do return: every record of \<^verbatim>\<open>parse_message_content\<close> has the type
  \<^verbatim>\<open>"Data leak"\<close>, whatever the message said, and \<^verbatim>\<open>parse_json_message\<close> returns no
  record at all. A merge of a store and a batch whose records have allowed types returns
  only records with allowed types.
\<close>

lemma parsed_type_is_allowed:
  assumes "parse_message_content message_text = Some (JObj record)"
    and "list_all has_text_content existing" and "list_all has_text_content new"
    and "list_all has_allowed_type existing" and "list_all has_allowed_type new"
  shows "map_of record ''Type'' = Some (JStr ''Data leak'')
         \<and> has_allowed_type record
         \<and> parse_json_message other_text = None
         \<and> (\<exists>out. deduplicate_messages H existing new = Inr out \<and> list_all has_allowed_type out)"
proof -
  from assms(1) have "record = plain_record (take MAX_CONTENT_LENGTH (clean_text message_text))"
    by (rule parse_message_content_record)
  with plain_record_type have "map_of record ''Type'' = Some (JStr ''Data leak'')"
    and "has_allowed_type record" by simp_all
  with parse_json_message_none[of other_text] deduplicate_keeps_property[OF assms(2-5), of H]
  show ?thesis by simp
qed

lemma simple_message_parsed:
  "parse_message_content (JStr ''Simple breach message'')
     = Some (JObj (plain_record ''Simple breach message''))"
  by code_simp

lemma sample_types:
  "list_all has_allowed_type sample_store \<and> list_all has_allowed_type sample_batch"
  by code_simp

lemma simple_message_type:
  "parse_message_content (JStr ''Simple breach message'')
     = Some (JObj (plain_record ''Simple breach message''))
   \<and> list_all has_text_content sample_store \<and> list_all has_text_content sample_batch
   \<and> list_all has_allowed_type sample_store \<and> list_all has_allowed_type sample_batch
   \<and> map_of (plain_record ''Simple breach message'') ''Type'' = Some (JStr ''Data leak'')
   \<and> has_allowed_type (plain_record ''Simple breach message'')
   \<and> (\<exists>out. deduplicate_messages sample_digest sample_store sample_batch = Inr out
          \<and> list_all has_allowed_type out)"
proof -
  have h2: "list_all has_text_content sample_store" and h3: "list_all has_text_content sample_batch"
    using sample_typed by simp_all
  have h4: "list_all has_allowed_type sample_store" and h5: "list_all has_allowed_type sample_batch"
    using sample_types by simp_all
  from parsed_type_is_allowed[OF simple_message_parsed h2 h3 h4 h5, of "JStr scenario_text" sample_digest]
    simple_message_parsed h2 h3 h4 h5
  show ?thesis by simp
qed

text \<open>
  Claim C3 at a message whose \<^verbatim>\<open>Type\<close> is \<^verbatim>\<open>Bogus\<close>, which is not an allowed type. The
  claim has the parsed record carry \<^verbatim>\<open>"Other"\<close>. \<^verbatim>\<open>parse_message_content\<close> returns the
  default \<^verbatim>\<open>"Data leak"\<close>, with the whole cleaned text as content, and
  \<^verbatim>\<open>parse_json_message\<close> returns nothing: the quotes are gone before the text is decoded,
  so the \<^verbatim>\<open>Type\<close> of the message is never read. On the decoded object itself, the field
  loop of \<^verbatim>\<open>parse_message_content\<close> leaves \<^verbatim>\<open>Bogus\<close> in place, while the loop of
  \<^verbatim>\<open>parse_json_message\<close> replaces it by \<^verbatim>\<open>"Other"\<close>.
\<close>

theorem out_of_set_type_not_coerced:
  "''Bogus'' \<notin> set ALLOWED_BREACH_TYPES
   \<and> parse_message_content (JStr bogus_type_text)
     = Some (JObj [(''Content'', JStr ''{Source: test.com, Content: Database breach exposed, Type: Bogus}''),
                   (''Source'', JStr ''Unknown''), (''Type'', JStr ''Data leak'')])
   \<and> parse_json_message (JStr bogus_type_text) = None
   \<and> map cap_item (fill_defaults bogus_type_object ''Database breach exposed'') = bogus_type_object
   \<and> map cap_item_full (fill_defaults bogus_type_object ''Database breach exposed'')
     = [(''Source'', JStr ''test.com''), (''Content'', JStr ''Database breach exposed''),
        (''Type'', JStr ''Other'')]"
  by code_simp

text \<open>
  Claim C5, as stated, fails on \<^verbatim>\<open>parse_message_content\<close>: the text \<^verbatim>\<open><>\<close> is cleaned
  to the empty text, and the function returns the plain-text record with empty
  \<^verbatim>\<open>Content\<close>, not \<^verbatim>\<open>None\<close>.
\<close>

theorem empty_text_gives_record:
  "parse_message_content (JStr ''<>'')
     = Some (JObj [(''Content'', JStr []), (''Source'', JStr ''Unknown''), (''Type'', JStr ''Data leak'')])"
  by code_simp

lemma validate_rejects_empty: "validate_message_structure (plain_record []) = Inr False"
  by (simp add: validate_message_structure_def plain_record_def dict_get_def strip_def)

text \<open>
  Claim C5, amended. A value that is not a text gives \<^verbatim>\<open>None\<close>. A text whose cleaned and
  truncated form is empty gives, in \<^verbatim>\<open>parse_message_content\<close>, the plain-text record with
  empty \<^verbatim>\<open>Content\<close>, which \<^verbatim>\<open>validate_message_structure\<close> rejects, and in
  \<^verbatim>\<open>parse_json_message\<close> it gives \<^verbatim>\<open>None\<close>. The merge returns no record whose stripped
  \<^verbatim>\<open>Content\<close> is empty.
\<close>

theorem empty_content_rejected_before_storage:
  assumes "take MAX_CONTENT_LENGTH (clean_text (JStr t)) = []"
    and "list_all has_text_content existing" and "list_all has_text_content new"
  shows "parse_message_content JNull = None \<and> parse_message_content (JBool b) = None
         \<and> parse_message_content (JNum x) = None \<and> parse_message_content (JArr xs) = None
         \<and> parse_message_content (JObj d) = None
         \<and> parse_message_content (JStr t) = Some (JObj (plain_record []))
         \<and> validate_message_structure (plain_record []) = Inr False
         \<and> parse_json_message (JStr t) = None
         \<and> (\<exists>out. deduplicate_messages H existing new = Inr out
                \<and> list_all (\<lambda>r. message_content r \<noteq> []) out)"
proof -
  have nontext: "parse_message_content JNull = None \<and> parse_message_content (JBool b) = None
         \<and> parse_message_content (JNum x) = None \<and> parse_message_content (JArr xs) = None
         \<and> parse_message_content (JObj d) = None"
    by (simp add: parse_message_content_def)
  have "parse_message_content (JStr t) = parse_attempts (Suc (Suc 0)) []"
    using assms(1) by (simp only: parse_message_content_text)
  also have "\<dots> = Some (JObj (plain_record []))"
    by (simp only: parse_attempts.simps json_loads_empty option.case)
  finally have empty: "parse_message_content (JStr t) = Some (JObj (plain_record []))" .
  let ?out = "appended H {} (existing @ new)"
  have "list_all (\<lambda>r. message_content r \<noteq> []) ?out"
    using appended_member[of _ H "{}" "existing @ new"]
    by (auto simp: list_all_iff passes_filter_def)
  with deduplicate_as_one_list[OF assms(2,3), of H]
  have stored: "\<exists>out. deduplicate_messages H existing new = Inr out
                \<and> list_all (\<lambda>r. message_content r \<noteq> []) out" by blast
  from nontext empty validate_rejects_empty parse_json_message_none[of "JStr t"] stored
  show ?thesis by simp
qed

lemma angle_brackets_clean: "take MAX_CONTENT_LENGTH (clean_text (JStr ''<>'')) = []"
  by code_simp

theorem empty_content_rejected_before_storage_witness:
  "take MAX_CONTENT_LENGTH (clean_text (JStr ''<>'')) = []
   \<and> list_all has_text_content sample_store \<and> list_all has_text_content sample_batch
   \<and> parse_message_content (JNum ''42'') = None
   \<and> parse_message_content (JStr ''<>'') = Some (JObj (plain_record []))
   \<and> validate_message_structure (plain_record []) = Inr False
   \<and> (\<exists>out. deduplicate_messages sample_digest sample_store sample_batch = Inr out
          \<and> list_all (\<lambda>r. message_content r \<noteq> []) out)"
proof -
  have h2: "list_all has_text_content sample_store" and h3: "list_all has_text_content sample_batch"
    using sample_typed by simp_all
  from empty_content_rejected_before_storage[OF angle_brackets_clean h2 h3,
      of True "''42''" "[]" "[]" sample_digest] angle_brackets_clean h2 h3
  show ?thesis by simp
qed

text \<open>
  The repository's test \<^verbatim>\<open>test_parse_message_content_json\<close> expects the three fields of
  its JSON input back. The cleaning removes every double quote before the text is decoded,
  so the decoding fails and the whole cleaned text becomes the content.
\<close>

lemma test_parse_message_content_json:
  \<open>parse_message_content (JStr ''{"Source": "test.com", "Content": "Test breach", "Type": "Data leak"}'')
     = Some (JObj [(''Content'', JStr ''{Source: test.com, Content: Test breach, Type: Data leak}''),
                   (''Source'', JStr ''Unknown''), (''Type'', JStr ''Data leak'')])\<close>
  by code_simp

text \<open>
  Claim C4 at the record parsed from \<^verbatim>\<open>Simple breach message\<close>: its serialization is
  parsed to a record with another \<^verbatim>\<open>Content\<close>.
\<close>

theorem round_trip_changes_content:
  \<open>parse_message_content (JStr ''Simple breach message'')
     = Some (JObj (plain_record ''Simple breach message''))
   \<and> json_dumps (JObj (plain_record ''Simple breach message''))
     = ''{"Content": "Simple breach message", "Source": "Unknown", "Type": "Data leak"}''
   \<and> parse_message_content (JStr (json_dumps (JObj (plain_record ''Simple breach message''))))
     = Some (JObj (plain_record ''{Content: Simple breach message, Source: Unknown, Type: Data leak}''))\<close>
  by code_simp

text \<open>
  Claim C8 at its own input: neither parser returns the three fields of the scenario text,
  while the classifier does accept the scenario's content.
\<close>

theorem scenario_not_decoded:
  "clean_text (JStr scenario_text)
     = ''{Source: test.com, Content: Database breach exposed 10000 user credentials, Type: Data leak}''
   \<and> json_loads (clean_text (JStr scenario_text)) = None
   \<and> parse_json_message (JStr scenario_text) = None
   \<and> parse_message_content (JStr scenario_text)
     = Some (JObj [(''Content'', JStr ''{Source: test.com, Content: Database breach exposed 10000 user credentials, Type: Data leak}''),
                   (''Source'', JStr ''Unknown''), (''Type'', JStr ''Data leak'')])
   \<and> is_relevant_breach ''Database breach exposed 10000 user credentials''
   \<and> breach_score_full ''Database breach exposed 10000 user credentials'' = 5
   \<and> spam_score_full ''Database breach exposed 10000 user credentials'' = 0
   \<and> is_legitimate_breach ''Database breach exposed 10000 user credentials''
   \<and> breach_score ''Database breach exposed 10000 user credentials'' = 4
   \<and> spam_score ''Database breach exposed 10000 user credentials'' = 0"
  by code_simp

end
